theory Spec2Isabelle
  imports Main "HOL-Library.Word"
begin

unbundle bit_operations_syntax

section \<open>Bytes and C strings\<close>

text \<open>
  A C \<^verbatim>\<open>char\<close> read through \<^verbatim>\<open>unsigned char\<close> is an 8-bit word. A buffer is the list of
  its bytes; indexing beyond the list is a read outside the buffer.
\<close>

type_synonym byte = "8 word"

definition NUL :: byte where "NUL = 0"
definition NL :: byte where "NL = 10"
definition BSL :: byte where "BSL = 92"

text \<open>The bytes of a string literal of the source.\<close>

definition bytes_of :: "string \<Rightarrow> byte list" where
  "bytes_of cs = map of_char cs"

section \<open>\<^verbatim>\<open>trailing_escape\<close>\<close>

text \<open>
  \<^verbatim>\<open>while( --len >= 0 && s[len] == '\\' ) odd_escape = !odd_escape;\<close>
  The loop state is \<open>len\<close> and \<open>odd_escape\<close>. A read of \<open>s[len]\<close> outside the buffer has no
  defined result in C; the model returns \<open>None\<close> there.
\<close>

function trailing_escape_loop :: "byte list \<Rightarrow> int \<Rightarrow> bool \<Rightarrow> bool option" where
  "trailing_escape_loop s len odd_escape =
     (let len1 = len - 1 in
      if len1 \<ge> 0 then
        (if nat len1 < length s then
           (if s ! nat len1 = BSL then trailing_escape_loop s len1 (\<not> odd_escape)
            else Some odd_escape)
         else None)
      else Some odd_escape)"
  by pat_completeness auto
termination
  by (relation "measure (\<lambda>(s, len, odd_escape). nat len)") auto

definition trailing_escape :: "byte list \<Rightarrow> int \<Rightarrow> bool option" where
  "trailing_escape s len = trailing_escape_loop s len False"

text \<open>The number of consecutive backslashes at the end of the first \<open>len\<close> bytes of \<open>s\<close>.\<close>

definition trailing_backslashes :: "byte list \<Rightarrow> int \<Rightarrow> nat" where
  "trailing_backslashes s len = length (takeWhile (\<lambda>c. c = BSL) (rev (take (nat len) s)))"


section \<open>The session: configuration, environment and state\<close>

text \<open>
  \<^verbatim>\<open>io.c\<close> calls into the line collection, the undo log and the session configuration,
  which are declared in \<^verbatim>\<open>ed.h\<close> and live in other files. What they hold is kept in one
  state record, next to the static variables of \<^verbatim>\<open>io.c\<close> itself; what the
  outside world decides (whether an allocation, a scratch-file access, an open or a close
  succeeds) is read from an environment record, so that each failure return of the source
  is a branch of the model. The diagnostics that \<^verbatim>\<open>show_strerror\<close> writes to the standard
  error stream are not part of the state; interrupts are not modelled, so
  \<^verbatim>\<open>disable_interrupts\<close> and \<^verbatim>\<open>enable_interrupts\<close> do nothing.
\<close>

text \<open>
  A line node is known by its identity (its address in C). \<open>Head\<close> is the sentinel node of
  the circular list, which stands at address 0.
\<close>

datatype node = Head | Node nat

record line_t =
  node_id :: nat
  chars :: "byte list"

text \<open>
  An undo atom: its kind (\<^verbatim>\<open>io.c\<close> only makes atoms of the kind \<^verbatim>\<open>UADD\<close>) and the first and the
  last node of the run of lines it stands for.
\<close>

datatype undo_type = UADD

record undo_t =
  utype :: undo_type
  uhead :: node
  utail :: node

text \<open>
  An input stream: the bytes \<^verbatim>\<open>getc\<close> will still deliver, and whether the end of them is a
  read error (\<^verbatim>\<open>ferror\<close>) or the end of the file (\<^verbatim>\<open>feof\<close>).
\<close>

record istream =
  pending :: "byte list"
  rd_error :: bool

text \<open>
  An output stream: where it leads, the bytes \<^verbatim>\<open>fputc\<close> has accepted, how many more it
  accepts before it returns \<^verbatim>\<open>EOF\<close> (\<open>None\<close>: no limit), and whether it writes from the start
  of the file, over the bytes that are there (a stream opened for update), or behind them.
\<close>

datatype sink = To_file "byte list" | To_pipe "byte list"

record ostream =
  target :: sink
  written :: "byte list"
  room :: "nat option"
  from_start :: bool

text \<open>
  The environment: the width of the terminal and the two flags of the session that
  \<^verbatim>\<open>io.c\<close> asks for; whether the program is built with \<^verbatim>\<open>__OS2__\<close>; for a requested buffer
  size, whether \<^verbatim>\<open>resize_buffer\<close> gets it; for a number of bytes, whether \<^verbatim>\<open>malloc\<close> gives
  them; for a node, whether its text can be written to and read from the scratch file; for
  the height of the undo stack, whether one more atom can be had; \<^verbatim>\<open>strip_escapes\<close> on file
  names; and for a file or a pipe, whether it opens, whether it closes, and how many bytes
  it takes.
\<close>

record env =
  window_columns :: int
  traditional :: bool
  scripted :: bool
  os2 :: bool
  alloc_ok :: "nat \<Rightarrow> bool"
  malloc_ok :: "nat \<Rightarrow> bool"
  sbuf_write_ok :: "nat \<Rightarrow> bool"
  sbuf_read_ok :: "nat \<Rightarrow> bool"
  undo_ok :: "nat \<Rightarrow> bool"
  strip_escapes :: "byte list \<Rightarrow> byte list"
  open_ok :: "sink \<Rightarrow> bool"
  close_ok :: "sink \<Rightarrow> bool"
  device_room :: "sink \<Rightarrow> nat option"

text \<open>
  The state: the lines of the collection in the order of their addresses; the identity
  the next new node gets; the current address; the undo stack, newest atom first; the
  binary-mode flag; \<^verbatim>\<open>unterminated_line\<close> (\<open>None\<close> is the null pointer), \<^verbatim>\<open>linenum_\<close> and
  \<^verbatim>\<open>textmode\<close> of \<^verbatim>\<open>io.c\<close>; the last error message; what has gone to the standard output;
  the standard input; the files by name; and the commands run on a pipe, each with the
  bytes written to its stream. \<^verbatim>\<open>linenum_\<close> is a C \<^verbatim>\<open>int\<close>: a word of 32 bits, read as a signed
  number.
\<close>

record ed_state =
  buffer_lines :: "line_t list"
  next_node :: nat
  current_addr_v :: int
  undo_stack :: "undo_t list"
  isbinary_v :: bool
  unterminated_line :: "node option"
  linenum_v :: "32 word"
  textmode :: bool
  errmsg :: "byte list"
  stdout_v :: "byte list"
  stdin_v :: istream
  files :: "byte list \<Rightarrow> byte list option"
  pipes :: "(byte list \<times> byte list) list"

subsection \<open>The collaborators of \<^verbatim>\<open>io.c\<close>\<close>

text \<open>
  Modelled from the spec: the queries and settings of the session that \<^verbatim>\<open>io.c\<close> consumes
  (section 6). The binary-mode flag is sticky: it can be set and is never cleared
  (section 3). The last address is the number of lines.
\<close>

definition isbinary :: "ed_state \<Rightarrow> bool" where
  "isbinary s = isbinary_v s"

definition set_binary :: "ed_state \<Rightarrow> ed_state" where
  "set_binary s = s\<lparr>isbinary_v := True\<rparr>"

definition current_addr :: "ed_state \<Rightarrow> int" where
  "current_addr s = current_addr_v s"

definition set_current_addr :: "int \<Rightarrow> ed_state \<Rightarrow> ed_state" where
  "set_current_addr addr s = s\<lparr>current_addr_v := addr\<rparr>"

definition last_addr :: "ed_state \<Rightarrow> int" where
  "last_addr s = int (length (buffer_lines s))"

definition set_error_msg :: "string \<Rightarrow> ed_state \<Rightarrow> ed_state" where
  "set_error_msg msg s = s\<lparr>errmsg := bytes_of msg\<rparr>"

text \<open>
  Modelled from the spec: \<^verbatim>\<open>resize_buffer\<close> is not in the sources. The spec has the scratch
  buffer grow on request and the growth fail (section 7, (a)); whether it fails is the
  environment's answer for the requested size. What it reports on failure is not modelled.
\<close>

definition resize_buffer :: "env \<Rightarrow> nat \<Rightarrow> bool" where
  "resize_buffer e min_size = alloc_ok e min_size"

text \<open>
  Modelled from the spec: \<^verbatim>\<open>search_line_node\<close> (section 6, resolve an address to a
  position). Address 0 is the sentinel; the addresses 1 to \<open>last_addr\<close> are the lines in
  order. The list is circular, so the address after the last one is the sentinel again;
  no caller asks for an address further out, and the model answers the sentinel there too.
\<close>

definition search_line_node :: "ed_state \<Rightarrow> int \<Rightarrow> node" where
  "search_line_node s addr =
     (if 1 \<le> addr \<and> addr \<le> last_addr s
      then Node (node_id (buffer_lines s ! nat (addr - 1))) else Head)"

text \<open>The address at which a node stands: the inverse of \<open>search_line_node\<close>.\<close>

fun node_index :: "line_t list \<Rightarrow> nat \<Rightarrow> nat" where
  "node_index [] i = 0"
| "node_index (l # ls) i = (if node_id l = i then 0 else Suc (node_index ls i))"

definition addr_of :: "ed_state \<Rightarrow> node \<Rightarrow> int" where
  "addr_of s n = (case n of Head \<Rightarrow> 0 | Node i \<Rightarrow> int (node_index (buffer_lines s) i) + 1)"

text \<open>\<^verbatim>\<open>lp->q_forw\<close>: the next node of the circular list.\<close>

definition q_forw :: "ed_state \<Rightarrow> node \<Rightarrow> node" where
  "q_forw s lp = search_line_node s (addr_of s lp + 1)"

fun find_line :: "line_t list \<Rightarrow> nat \<Rightarrow> line_t option" where
  "find_line [] i = None"
| "find_line (l # ls) i = (if node_id l = i then Some l else find_line ls i)"

text \<open>
  Modelled from the spec: \<^verbatim>\<open>get_sbuf_line\<close> (section 6, fetch line content and length by
  position). It gives the stored bytes of the line, which do not include a newline
  (section 4.4 has the emitter append it), or fails: on the sentinel, which has no content,
  and when the environment refuses the scratch-file read.
\<close>

definition get_sbuf_line :: "env \<Rightarrow> ed_state \<Rightarrow> node \<Rightarrow> byte list option" where
  "get_sbuf_line e s lp =
     (case lp of
        Head \<Rightarrow> None
      | Node i \<Rightarrow>
          (case find_line (buffer_lines s) i of
             None \<Rightarrow> None
           | Some l \<Rightarrow> if sbuf_read_ok e i then Some (chars l) else None))"

text \<open>The index of the first newline of a buffer, as \<^verbatim>\<open>memchr\<close> finds it.\<close>

fun first_newline :: "byte list \<Rightarrow> nat option" where
  "first_newline [] = None"
| "first_newline (c # cs) =
     (if c = NL then Some 0 else map_option Suc (first_newline cs))"

text \<open>
  Modelled from the spec: \<^verbatim>\<open>put_sbuf_line\<close> (section 6, insert one line after a given
  position; section 4.3, each line goes right after the current end of the growing run
  and the insertion point advances). Of the \<open>sz\<close> bytes handed over, the bytes before the
  terminating newline become the content of a new node, which is linked in after the
  current address; the current address then is that of the new node. The call fails when
  the bytes hold no newline and when the environment refuses the scratch-file write.
\<close>

definition put_sbuf_line :: "env \<Rightarrow> byte list \<Rightarrow> int \<Rightarrow> ed_state \<Rightarrow> bool \<times> ed_state" where
  "put_sbuf_line e buf sz s =
     (case first_newline (take (nat sz) buf) of
        None \<Rightarrow> (False, s)
      | Some len \<Rightarrow>
          if \<not> sbuf_write_ok e (next_node s) then (False, s)
          else
            (let ca = nat (current_addr s);
                 l = \<lparr>node_id = next_node s, chars = take len buf\<rparr>
             in (True, s\<lparr>buffer_lines := take ca (buffer_lines s) @ l # drop ca (buffer_lines s),
                        next_node := Suc (next_node s),
                        current_addr_v := current_addr s + 1\<rparr>)))"

text \<open>
  Modelled from the spec: \<^verbatim>\<open>push_undo_atom\<close> (section 6, open an atomic undo group). The
  new atom spans the nodes at the two addresses and goes on top of the undo stack; the
  environment may refuse it. \<open>set_undo_tail\<close> is the assignment \<^verbatim>\<open>up->tail = lp\<close> to the atom
  on top.
\<close>

definition push_undo_atom :: "env \<Rightarrow> undo_type \<Rightarrow> int \<Rightarrow> int \<Rightarrow> ed_state \<Rightarrow> bool \<times> ed_state" where
  "push_undo_atom e ty from to s =
     (if \<not> undo_ok e (length (undo_stack s)) then (False, s)
      else (True, s\<lparr>undo_stack :=
              \<lparr>utype = ty, uhead = search_line_node s from, utail = search_line_node s to\<rparr>
                # undo_stack s\<rparr>))"

definition set_undo_tail :: "node \<Rightarrow> ed_state \<Rightarrow> ed_state" where
  "set_undo_tail lp s =
     (case undo_stack s of
        [] \<Rightarrow> s
      | u # us \<Rightarrow> s\<lparr>undo_stack := u\<lparr>utail := lp\<rparr> # us\<rparr>)"

subsection \<open>The C library\<close>

text \<open>\<^verbatim>\<open>fputc\<close>: \<open>False\<close> is the return value \<^verbatim>\<open>EOF\<close>.\<close>

definition fputc :: "byte \<Rightarrow> ostream \<Rightarrow> bool \<times> ostream" where
  "fputc c fp =
     (case room fp of
        None \<Rightarrow> (True, fp\<lparr>written := written fp @ [c]\<rparr>)
      | Some 0 \<Rightarrow> (False, fp)
      | Some (Suc n) \<Rightarrow> (True, fp\<lparr>written := written fp @ [c], room := Some n\<rparr>))"

text \<open>\<^verbatim>\<open>putchar\<close>, \<^verbatim>\<open>fputs\<close> and \<^verbatim>\<open>printf\<close> on the standard output.\<close>

definition put_bytes :: "byte list \<Rightarrow> ed_state \<Rightarrow> ed_state" where
  "put_bytes bs s = s\<lparr>stdout_v := stdout_v s @ bs\<rparr>"

function dec_digits :: "nat \<Rightarrow> byte list" where
  "dec_digits n =
     (if n < 10 then [48 + of_nat n] else dec_digits (n div 10) @ [48 + of_nat (n mod 10)])"
  by pat_completeness auto
termination
  by (relation "measure (\<lambda>n. n)") auto

definition printf_d :: "int \<Rightarrow> byte list" where
  "printf_d i = (if i < 0 then 45 # dec_digits (nat (- i)) else dec_digits (nat i))"


section \<open>\<^verbatim>\<open>io.c\<close>\<close>

subsection \<open>The static variables and their accessors\<close>

text \<open>
  \<^verbatim>\<open>++linenum_\<close> adds one to the word. At the greatest value, 2147483647, that is a signed
  overflow, which C leaves undefined; the word wraps around to -2147483648, as the compiled
  code does.
\<close>

definition linenum :: "ed_state \<Rightarrow> int" where
  "linenum s = sint (linenum_v s)"

definition set_textmode :: "ed_state \<Rightarrow> ed_state" where
  "set_textmode s = s\<lparr>textmode := True\<rparr>"

definition reset_unterminated_line :: "ed_state \<Rightarrow> ed_state" where
  "reset_unterminated_line s = s\<lparr>unterminated_line := None\<rparr>"

definition unmark_unterminated_line :: "node \<Rightarrow> ed_state \<Rightarrow> ed_state" where
  "unmark_unterminated_line lp s =
     (if unterminated_line s = Some lp then s\<lparr>unterminated_line := None\<rparr> else s)"

definition unterminated_last_line :: "ed_state \<Rightarrow> bool" where
  "unterminated_last_line s =
     (unterminated_line s \<noteq> None \<and>
      unterminated_line s = Some (search_line_node s (last_addr s)))"

subsection \<open>\<^verbatim>\<open>print_line\<close>\<close>

text \<open>
  The flag word \<open>pflags\<close> is only tested against \<^verbatim>\<open>GNP\<close> and \<^verbatim>\<open>GLS\<close>, two constants of
  \<^verbatim>\<open>ed.h\<close>; the model keeps the outcome of the two tests. The pair \<^verbatim>\<open>(p, len)\<close> is the
  list of the \<open>len\<close> bytes at \<open>p\<close>.
\<close>

record pflags =
  gnp :: bool
  gls :: bool

definition escapes :: "byte list" where
  "escapes = [7, 8, 12, 10, 13, 9, 11]"

definition escchars :: "byte list" where
  "escchars = bytes_of ''abfnrtv''"

text \<open>
  \<^verbatim>\<open>strchr\<close> on a string without its terminator: the offset of the first occurrence of
  \<open>ch\<close>, where the terminating NUL counts as part of the string.
\<close>

fun strchr :: "byte list \<Rightarrow> byte \<Rightarrow> nat option" where
  "strchr [] ch = (if ch = NUL then Some 0 else None)"
| "strchr (c # cs) ch = (if c = ch then Some 0 else map_option Suc (strchr cs ch))"

text \<open>
  The body of the loop for one byte when \<^verbatim>\<open>pflags & GLS\<close> holds: from the column before
  the byte to the column after it, with the bytes written.
\<close>

definition list_byte :: "int \<Rightarrow> int \<Rightarrow> byte \<Rightarrow> int \<times> byte list" where
  "list_byte w col ch =
     (let col1 = col + 1;
          col2 = (if col1 > w then 1 else col1);
          wrap = (if col1 > w then [BSL, NL] else [])
      in if 32 \<le> ch \<and> ch \<le> 126 then
           (if ch = 36 \<or> ch = BSL then (col2 + 1, wrap @ [BSL, ch])
            else (col2, wrap @ [ch]))
         else
           (case strchr escapes ch of
              Some k \<Rightarrow>
                if ch \<noteq> NUL then (col2 + 1, wrap @ [BSL, escchars ! k])
                else (col2 + 1 + 2, wrap @ [BSL, (drop_bit 6 ch AND 7) + 48,
                                        (drop_bit 3 ch AND 7) + 48, (ch AND 7) + 48])
            | None \<Rightarrow>
                (col2 + 1 + 2, wrap @ [BSL, (drop_bit 6 ch AND 7) + 48,
                                   (drop_bit 3 ch AND 7) + 48, (ch AND 7) + 48])))"

fun print_line_loop :: "env \<Rightarrow> pflags \<Rightarrow> int \<Rightarrow> byte list \<Rightarrow> byte list" where
  "print_line_loop e pf col [] = []"
| "print_line_loop e pf col (ch # p) =
     (if \<not> gls pf then ch # print_line_loop e pf col p
      else (case list_byte (window_columns e) col ch of
              (col1, bs) \<Rightarrow> bs @ print_line_loop e pf col1 p))"

definition print_line :: "env \<Rightarrow> byte list \<Rightarrow> pflags \<Rightarrow> ed_state \<Rightarrow> ed_state" where
  "print_line e p pf s =
     (let number = (if gnp pf then printf_d (current_addr s) @ [9] else []);
          col = (if gnp pf then 8 else 0);
          dollar = (if \<not> traditional e \<and> gls pf then [36] else [])
      in put_bytes (number @ print_line_loop e pf col p @ dollar @ [NL]) s)"

subsection \<open>\<^verbatim>\<open>get_stdin_line\<close>\<close>

text \<open>
  The loop over \<^verbatim>\<open>getchar()\<close>, by recursion on the bytes the standard input still
  delivers; \<open>err\<close> says whether their end is a read error. \<open>buf\<close> holds the \<open>i\<close> bytes stored so
  far. The result is the returned pointer (\<open>None\<close> for 0; else the bytes of the buffer up
  to its terminator), \<^verbatim>\<open>*sizep\<close>, the bytes left on the input, and the state. \<^verbatim>\<open>++linenum_\<close> is
  the addition of one to the 32-bit word.
\<close>

fun get_stdin_loop ::
  "env \<Rightarrow> byte list \<Rightarrow> bool \<Rightarrow> byte list \<Rightarrow> ed_state
     \<Rightarrow> byte list option \<times> int \<times> byte list \<times> ed_state" where
  "get_stdin_loop e [] err buf s =
     (if \<not> resize_buffer e (length buf + 2) then (None, 0, [], s)
      else if err then (None, 0, [], set_error_msg ''Cannot read stdin'' s)
      else
        (let s1 = set_error_msg ''Unexpected end-of-file'' s;
             s2 = (if length buf > 0 then s1\<lparr>linenum_v := linenum_v s1 + 1\<rparr> else s1)
         in (Some (NUL # drop 1 buf), 0, [], s2)))"
| "get_stdin_loop e (c # cs) err buf s =
     (if \<not> resize_buffer e (length buf + 2) then (None, 0, cs, s)
      else
        (let buf1 = buf @ [c];
             s1 = (if c = NUL then set_binary s else s)
         in if c \<noteq> NL then get_stdin_loop e cs err buf1 s1
            else (Some (buf1 @ [NUL]), int (length buf1), cs,
                  s1\<lparr>linenum_v := linenum_v s1 + 1\<rparr>)))"

definition get_stdin_line :: "env \<Rightarrow> ed_state \<Rightarrow> byte list option \<times> int \<times> ed_state" where
  "get_stdin_line e s =
     (case get_stdin_loop e (pending (stdin_v s)) (rd_error (stdin_v s)) [] s of
        (r, sz, rest, s1) \<Rightarrow> (r, sz, s1\<lparr>stdin_v := (stdin_v s1)\<lparr>pending := rest\<rparr>\<rparr>))"

text \<open>The C string that starts at a buffer: its bytes before the first NUL.\<close>

definition c_string :: "byte list \<Rightarrow> byte list" where
  "c_string buf = takeWhile (\<lambda>c. c \<noteq> NUL) buf"

subsection \<open>\<^verbatim>\<open>read_stream_line\<close>\<close>

datatype loop_exit = No_memory | At_EOF | At_newline

text \<open>
  The reading loop, by recursion on the bytes the stream still delivers. It ends when
  \<^verbatim>\<open>resize_buffer\<close> fails, at \<^verbatim>\<open>EOF\<close>, or behind a newline; the result says which, with the
  bytes stored, the bytes left on the stream, and the state.
\<close>

fun read_line_loop ::
  "env \<Rightarrow> byte list \<Rightarrow> byte list \<Rightarrow> ed_state \<Rightarrow> loop_exit \<times> byte list \<times> byte list \<times> ed_state" where
  "read_line_loop e [] buf s =
     (if \<not> resize_buffer e (length buf + 2) then (No_memory, buf, [], s)
      else (At_EOF, buf, [], s))"
| "read_line_loop e (c # cs) buf s =
     (if \<not> resize_buffer e (length buf + 2) then (No_memory, buf, c # cs, s)
      else if c = NUL then read_line_loop e cs (buf @ [c]) (set_binary s)
      else if c = NL then (At_newline, buf @ [c], cs, s)
      else read_line_loop e cs (buf @ [c]) s)"

text \<open>
  The result: the returned pointer with \<^verbatim>\<open>*sizep\<close> (\<open>None\<close> for the return value 0; else the
  bytes of the buffer up to its terminator, and the size), the stream, \<^verbatim>\<open>*newline_addedp\<close>,
  and the state.
\<close>

definition read_stream_line ::
  "env \<Rightarrow> istream \<Rightarrow> bool \<Rightarrow> ed_state
     \<Rightarrow> (byte list \<times> int) option \<times> istream \<times> bool \<times> ed_state" where
  "read_stream_line e fp newline_added s =
     (case read_line_loop e (pending fp) [] s of
        (ex, buf, rest, s1) \<Rightarrow>
          (let fp1 = fp\<lparr>pending := rest\<rparr>; i = int (length buf) in
           case ex of
             No_memory \<Rightarrow> (None, fp1, newline_added, s1)
           | At_newline \<Rightarrow> (Some (buf @ [NUL], i), fp1, newline_added, s1)
           | At_EOF \<Rightarrow>
               if rd_error fp then
                 (None, fp1, newline_added, set_error_msg ''Cannot read input file'' s1)
               else if i \<noteq> 0 then
                 (Some (buf @ [NL, NUL], if \<not> isbinary s1 then i + 1 else i), fp1, True, s1)
               else (Some (buf @ [NUL], i), fp1, newline_added, s1)))"


subsection \<open>\<^verbatim>\<open>read_stream\<close>\<close>

text \<open>
  The loop of \<^verbatim>\<open>read_stream\<close>. Its variables are the stream, \<open>lp\<close>, whether the undo atom
  \<open>up\<close> is open yet, \<open>total_size\<close> and \<open>newline_added\<close>. It ends with \<open>False\<close> where the source
  returns -1 and with \<open>True\<close> where it leaves the loop.
\<close>

function read_stream_loop ::
  "env \<Rightarrow> istream \<Rightarrow> node \<Rightarrow> bool \<Rightarrow> int \<Rightarrow> bool \<Rightarrow> ed_state
     \<Rightarrow> bool \<times> istream \<times> int \<times> bool \<times> ed_state" where
  "read_stream_loop e fp lp up total_size newline_added s =
     (case read_stream_line e fp newline_added s of
        (None, fp1, na1, s1) \<Rightarrow> (False, fp1, total_size, na1, s1)
      | (Some (buf, sz), fp1, na1, s1) \<Rightarrow>
          if sz \<le> 0 then (True, fp1, total_size, na1, s1)
          else
            (case put_sbuf_line e buf (sz + (if na1 then 1 else 0)) s1 of
               (False, s2) \<Rightarrow> (False, fp1, total_size + sz, na1, s2)
             | (True, s2) \<Rightarrow>
                 (let lp1 = q_forw s2 lp in
                  if up then
                    read_stream_loop e fp1 lp1 True (total_size + sz) na1 (set_undo_tail lp1 s2)
                  else
                    (case push_undo_atom e UADD (current_addr s2) (current_addr s2) s2 of
                       (False, s3) \<Rightarrow> (False, fp1, total_size + sz, na1, s3)
                     | (True, s3) \<Rightarrow>
                         read_stream_loop e fp1 lp1 True (total_size + sz) na1 s3))))"
  by pat_completeness auto
termination
proof -
  have loop_len: "length rest + length buf1 = length bs + length buf"
    if "read_line_loop e bs buf s = (ex, buf1, rest, s1)"
    for e bs buf s ex buf1 rest s1
    using that
    by (induction bs arbitrary: buf s) (auto split: if_splits)
  have step: "((e1, xb, r), (e, fp, q)) \<in> measure (\<lambda>(e, fp, q). length (pending fp))"
    if "(x, y) = read_stream_line e fp na s" "x = Some x2" "(xa, ya) = x2" "(xb, yb) = y"
       "\<not> ya \<le> 0"
    for e e1 :: env and fp na s x y x2 xa ya xb yb
      and r q :: "node \<times> bool \<times> int \<times> bool \<times> ed_state"
    using that loop_len [of e "pending fp" "[]" s]
    by (auto simp: read_stream_line_def Let_def neq_Nil_conv
             split: prod.splits loop_exit.splits if_splits)
  show ?thesis
    apply (relation "measure (\<lambda>(e, fp, q). length (pending fp))")
      apply simp
     apply (erule (4) step)
    apply (erule (4) step)
    done
qed

definition read_stream :: "env \<Rightarrow> istream \<Rightarrow> int \<Rightarrow> ed_state \<Rightarrow> int option \<times> istream \<times> ed_state" where
  "read_stream e fp addr s =
     (let lp = search_line_node s addr;
          o_isbinary = isbinary s;
          appended = (addr = last_addr s);
          o_unterminated_last_line = unterminated_last_line s
      in case read_stream_loop e fp lp False 0 False (set_current_addr addr s) of
           (False, fp1, total_size, newline_added, s1) \<Rightarrow> (None, fp1, s1)
         | (True, fp1, total_size, newline_added, s1) \<Rightarrow>
             (let s2 = (if addr \<noteq> 0 \<and> appended \<and> total_size \<noteq> 0 \<and> o_unterminated_last_line
                        then put_bytes (bytes_of ''Newline inserted'' @ [NL]) s1
                        else if newline_added \<and> (\<not> appended \<or> \<not> isbinary s1)
                        then put_bytes (bytes_of ''Newline appended'' @ [NL]) s1
                        else s1);
                  total_size1 = (if \<not> appended \<and> isbinary s2 \<and> \<not> o_isbinary \<and> newline_added
                                 then total_size + 1 else total_size);
                  s3 = (if appended \<and> isbinary s2 \<and> (newline_added \<or> total_size1 = 0)
                        then s2\<lparr>unterminated_line := Some (search_line_node s2 (last_addr s2))\<rparr>
                        else s2)
              in (Some total_size1, fp1, s3)))"

subsection \<open>\<^verbatim>\<open>write_stream\<close>\<close>

text \<open>The inner loop: \<^verbatim>\<open>fputc\<close> byte by byte, until one fails.\<close>

fun fputc_all :: "byte list \<Rightarrow> ostream \<Rightarrow> bool \<times> ostream" where
  "fputc_all [] fp = (True, fp)"
| "fputc_all (c # cs) fp =
     (case fputc c fp of (False, fp1) \<Rightarrow> (False, fp1) | (True, fp1) \<Rightarrow> fputc_all cs fp1)"

function write_stream_loop ::
  "env \<Rightarrow> ostream \<Rightarrow> int \<Rightarrow> int \<Rightarrow> node \<Rightarrow> int \<Rightarrow> ed_state \<Rightarrow> int option \<times> ostream \<times> ed_state" where
  "write_stream_loop e fp from to lp sz s =
     (if from \<noteq> 0 \<and> from \<le> to then
        (case get_sbuf_line e s lp of
           None \<Rightarrow> (None, fp, s)
         | Some p \<Rightarrow>
             (let p1 = (if from \<noteq> last_addr s \<or> \<not> isbinary s \<or> \<not> unterminated_last_line s
                        then p @ [NL] else p)
              in case fputc_all p1 fp of
                   (False, fp1) \<Rightarrow> (None, fp1, set_error_msg ''Cannot write file'' s)
                 | (True, fp1) \<Rightarrow>
                     write_stream_loop e fp1 (from + 1) to (q_forw s lp)
                       (sz + int (length p1)) s))
      else (Some sz, fp, s))"
  by pat_completeness auto
termination
  by (relation "measure (\<lambda>(e, fp, from, to, lp, sz, s). nat (to + 1 - from))") auto

definition write_stream :: "env \<Rightarrow> ostream \<Rightarrow> int \<Rightarrow> int \<Rightarrow> ed_state \<Rightarrow> int option \<times> ostream \<times> ed_state" where
  "write_stream e fp from to s = write_stream_loop e fp from to (search_line_node s from) 0 s"

subsection \<open>\<^verbatim>\<open>write_file\<close>\<close>

text \<open>
  \<^verbatim>\<open>fopen\<close> and \<^verbatim>\<open>popen\<close>, as far as a stream that is written to goes. The first character of
  the mode of \<^verbatim>\<open>fopen\<close> says what is done to the file: with \<open>w\<close> it is created or cut to length
  zero; with \<open>a\<close> it is created or keeps its bytes, and what is written goes behind them;
  with \<open>r\<close> it must exist and keeps its bytes, and the stream takes no byte unless the mode
  holds a \<open>+\<close>, which opens it for update: then what is written goes over the bytes of the
  file from its start. A \<open>b\<close> in the mode changes nothing. A mode that starts with none of the
  three letters is refused. A pipe runs a command, which is handed the bytes when the pipe
  is closed; its mode is always \<open>w\<close>.
\<close>

definition open_output :: "env \<Rightarrow> sink \<Rightarrow> byte list \<Rightarrow> ed_state \<Rightarrow> ostream option \<times> ed_state" where
  "open_output e t mode s =
     (let fp = \<lparr>target = t, written = [], room = device_room e t, from_start = False\<rparr> in
      if \<not> open_ok e t then (None, s)
      else
        (case t of
           To_pipe cmd \<Rightarrow> (Some fp, s)
         | To_file name \<Rightarrow>
             if take 1 mode = bytes_of ''w'' then
               (Some fp, s\<lparr>files := (files s)(name \<mapsto> [])\<rparr>)
             else if take 1 mode = bytes_of ''a'' then
               (Some fp, s\<lparr>files := (files s)(name \<mapsto>
                                 (case files s name of None \<Rightarrow> [] | Some old \<Rightarrow> old))\<rparr>)
             else if take 1 mode = bytes_of ''r'' \<and> files s name \<noteq> None then
               (Some (if 43 \<in> set mode then fp\<lparr>from_start := True\<rparr> else fp\<lparr>room := Some 0\<rparr>), s)
             else (None, s)))"

text \<open>
  \<^verbatim>\<open>fclose\<close> and \<^verbatim>\<open>pclose\<close>: \<open>True\<close> is the return value 0. The bytes written reach the file or
  the command.
\<close>

definition close_output :: "env \<Rightarrow> ostream \<Rightarrow> ed_state \<Rightarrow> bool \<times> ed_state" where
  "close_output e fp s =
     (close_ok e (target fp),
      case target fp of
        To_pipe cmd \<Rightarrow> s\<lparr>pipes := pipes s @ [(cmd, written fp)]\<rparr>
      | To_file name \<Rightarrow>
          (let old = (case files s name of None \<Rightarrow> [] | Some bs \<Rightarrow> bs)
           in s\<lparr>files := (files s)(name \<mapsto>
                  (if from_start fp then written fp @ drop (length (written fp)) old
                   else old @ written fp))\<rparr>))"

text \<open>
  What a call of \<^verbatim>\<open>write_file\<close> comes to: it returns (\<open>None\<close> is the return value -1) and
  leaves a state, or it runs into behaviour that C leaves undefined, of which the model
  says nothing more.
\<close>

datatype write_result = Undefined_behaviour | Returns "int option" ed_state

text \<open>
  \<^verbatim>\<open>write_file\<close>. With \<^verbatim>\<open>__OS2__\<close> defined (\<open>os2\<close>), \<^verbatim>\<open>binmode\<close> is the caller's \<^verbatim>\<open>mode\<close> itself when
  \<^verbatim>\<open>textmode\<close> is set and when \<^verbatim>\<open>malloc\<close> gives nothing, and new memory of \<^verbatim>\<open>strlen(mode) + 2\<close>
  bytes otherwise. The \<^verbatim>\<open>strcpy\<close> and the \<^verbatim>\<open>strcat\<close> stand behind the \<^verbatim>\<open>if\<close> and are run in
  every case. On the caller's own string, \<^verbatim>\<open>strcpy\<close> copies between objects that overlap and
  \<^verbatim>\<open>strcat\<close> writes behind the end of a string that was handed over as \<^verbatim>\<open>const\<close>, a string
  literal when the call names its mode directly: that is undefined in C. On new memory
  they make the mode followed by \<open>b\<close>. \<^verbatim>\<open>show_strerror\<close> writes to the standard error stream, which is not part of the
  state.
\<close>

definition write_file ::
  "env \<Rightarrow> byte list \<Rightarrow> byte list \<Rightarrow> int \<Rightarrow> int \<Rightarrow> ed_state \<Rightarrow> write_result" where
  "write_file e filename mode from to s =
     (if os2 e \<and> (textmode s \<or> \<not> malloc_ok e (length mode + 2)) then Undefined_behaviour
      else
        (let binmode = (if os2 e then mode @ bytes_of ''b'' else mode);
             opened = (if take 1 filename = bytes_of ''!''
                       then open_output e (To_pipe (drop 1 filename)) (bytes_of ''w'') s
                       else open_output e (To_file (strip_escapes e filename)) binmode s)
         in case opened of
              (None, s1) \<Rightarrow> Returns None (set_error_msg ''Cannot open output file'' s1)
            | (Some fp, s1) \<Rightarrow>
                (case write_stream e fp from to s1 of
                   (sz, fp1, s2) \<Rightarrow>
                     (case close_output e fp1 s2 of
                        (ret, s3) \<Rightarrow>
                          (case sz of
                             None \<Rightarrow> Returns None s3
                           | Some n \<Rightarrow>
                               if \<not> ret
                               then Returns None (set_error_msg ''Cannot close output file'' s3)
                               else
                                 (let s4 = (if \<not> scripted e
                                            then put_bytes (dec_digits (nat n) @ [NL]) s3
                                            else s3)
                                  in Returns
                                       (Some (if from \<noteq> 0 \<and> from \<le> to then to - from + 1
                                              else 0))
                                       s4))))))"


section \<open>Concrete sessions\<close>

text \<open>
  An environment in which nothing fails, on a terminal of the default width, and the
  state of a session that has just started: no lines, text mode, nothing marked.
\<close>

definition plain_env :: env where
  "plain_env =
     \<lparr>window_columns = 72, traditional = False, scripted = False, os2 = False,
      alloc_ok = (\<lambda>n. True), malloc_ok = (\<lambda>n. True), sbuf_write_ok = (\<lambda>n. True), sbuf_read_ok = (\<lambda>n. True),
      undo_ok = (\<lambda>n. True), strip_escapes = (\<lambda>name. name), open_ok = (\<lambda>t. True),
      close_ok = (\<lambda>t. True), device_room = (\<lambda>t. None)\<rparr>"

definition initial_state :: ed_state where
  "initial_state =
     \<lparr>buffer_lines = [], next_node = 0, current_addr_v = 0, undo_stack = [],
      isbinary_v = False, unterminated_line = None, linenum_v = 0, textmode = False,
      errmsg = [], stdout_v = [], stdin_v = \<lparr>pending = [], rd_error = False\<rparr>,
      files = (\<lambda>name. None), pipes = []\<rparr>"

text \<open>A stream that delivers the given bytes and then ends.\<close>

definition stream_of :: "byte list \<Rightarrow> istream" where
  "stream_of bs = \<lparr>pending = bs, rd_error = False\<rparr>"

section \<open>Notions for the display formatter\<close>

text \<open>
  The escaped form of a byte, in the words of the specification: a printable byte
  (32 to 126) stands for itself, but \<open>$\<close> and the backslash have a backslash before them;
  the seven control bytes with a mnemonic are a backslash and the letter; every other
  byte is a backslash and the three octal digits of its value.
\<close>

definition octal_digits :: "byte \<Rightarrow> byte list" where
  "octal_digits ch =
     [48 + of_nat (unat ch div 64 mod 8), 48 + of_nat (unat ch div 8 mod 8),
      48 + of_nat (unat ch mod 8)]"

definition escaped_form :: "byte \<Rightarrow> byte list" where
  "escaped_form ch =
     (if 32 \<le> ch \<and> ch \<le> 126 then (if ch = 36 \<or> ch = BSL then [BSL, ch] else [ch])
      else if ch = 7 then BSL # bytes_of ''a''
      else if ch = 8 then BSL # bytes_of ''b''
      else if ch = 12 then BSL # bytes_of ''f''
      else if ch = 10 then BSL # bytes_of ''n''
      else if ch = 13 then BSL # bytes_of ''r''
      else if ch = 9 then BSL # bytes_of ''t''
      else if ch = 11 then BSL # bytes_of ''v''
      else BSL # octal_digits ch)"

text \<open>
  The physical lines of an escaped output: what stands between the wrap sequences, a
  backslash and a newline. There is always at least one, maybe empty. \<open>unwrap\<close> is the
  output without the wrap sequences.
\<close>

fun chunks :: "byte list \<Rightarrow> byte list list" where
  "chunks [] = [[]]"
| "chunks [a] = [[a]]"
| "chunks (a # b # cs) =
     (if a = BSL \<and> b = NL then [] # chunks cs
      else (a # hd (chunks (b # cs))) # tl (chunks (b # cs)))"

definition unwrap :: "byte list \<Rightarrow> byte list" where
  "unwrap bs = concat (chunks bs)"

definition list_flags :: pflags where
  "list_flags = \<lparr>gnp = False, gls = True\<rparr>"

text \<open>
  The columns that the physical line at the end of an output holds: its characters, and
  the columns \<open>col0\<close> of what stands before the output if no wrap sequence has been
  written yet.
\<close>

definition line_columns :: "int \<Rightarrow> byte list \<Rightarrow> int" where
  "line_columns col0 out =
     (if length (chunks out) = 1 then col0 else 0) + int (length (last (chunks out)))"

text \<open>The variable \<^verbatim>\<open>col\<close> of \<^verbatim>\<open>print_line\<close> behind the bytes of \<open>p\<close>.\<close>

fun print_line_col :: "env \<Rightarrow> pflags \<Rightarrow> int \<Rightarrow> byte list \<Rightarrow> int" where
  "print_line_col e pf col [] = col"
| "print_line_col e pf col (ch # p) =
     (if \<not> gls pf then print_line_col e pf col p
      else print_line_col e pf (fst (list_byte (window_columns e) col ch)) p)"

section \<open>Notions for ingest and emit\<close>

text \<open>
  The lines of a byte sequence: the runs of bytes before each newline, and the run behind
  the last newline if it is not empty.
\<close>

fun lines_from :: "byte list \<Rightarrow> byte list \<Rightarrow> byte list list" where
  "lines_from cur [] = (if cur = [] then [] else [cur])"
| "lines_from cur (c # cs) =
     (if c = NL then cur # lines_from [] cs else lines_from (cur @ [c]) cs)"

definition split_lines :: "byte list \<Rightarrow> byte list list" where
  "split_lines bs = lines_from [] bs"

text \<open>Line nodes with the given contents and consecutive fresh identities.\<close>

fun fresh_lines :: "nat \<Rightarrow> byte list list \<Rightarrow> line_t list" where
  "fresh_lines n [] = []"
| "fresh_lines n (t # ts) = \<lparr>node_id = n, chars = t\<rparr> # fresh_lines (Suc n) ts"

text \<open>
  What a successful ingest of the lines \<open>ts\<close> makes of the state: the lines stand behind the
  old current address as new nodes, the current address is that of the last of them,
  binary mode is on if it was or if \<open>b\<close> holds, and the marker and the standard output are
  untouched.
\<close>

definition ingested :: "byte list list \<Rightarrow> bool \<Rightarrow> ed_state \<Rightarrow> ed_state \<Rightarrow> bool" where
  "ingested ts b s s1 =
     (buffer_lines s1 =
        take (nat (current_addr s)) (buffer_lines s) @ fresh_lines (next_node s) ts
          @ drop (nat (current_addr s)) (buffer_lines s)
      \<and> next_node s1 = next_node s + length ts
      \<and> current_addr s1 = current_addr s + int (length ts)
      \<and> isbinary s1 = (isbinary s \<or> b)
      \<and> unterminated_line s1 = unterminated_line s
      \<and> stdout_v s1 = stdout_v s)"




text \<open>Two states that differ at most in the undo stack and in what no claim looks at.\<close>

definition same_core :: "ed_state \<Rightarrow> ed_state \<Rightarrow> bool" where
  "same_core s s' =
     (buffer_lines s' = buffer_lines s \<and> next_node s' = next_node s
      \<and> current_addr s' = current_addr s \<and> isbinary s' = isbinary s
      \<and> unterminated_line s' = unterminated_line s \<and> stdout_v s' = stdout_v s)"

text \<open>A byte sequence whose last line has no newline behind it.\<close>

definition lacks_newline :: "byte list \<Rightarrow> bool" where
  "lacks_newline bs = (bs \<noteq> [] \<and> last bs \<noteq> NL)"

text \<open>The status message of \<^verbatim>\<open>read_stream\<close>, in the words of the specification.\<close>

definition message_inserted :: "byte list" where
  "message_inserted = bytes_of ''Newline inserted'' @ [NL]"

definition message_appended :: "byte list" where
  "message_appended = bytes_of ''Newline appended'' @ [NL]"

text \<open>
  The last line of the collection holds the marker: there is a last line, and the marker
  is its node.
\<close>

definition last_line_marked :: "ed_state \<Rightarrow> bool" where
  "last_line_marked s =
     (buffer_lines s \<noteq> []
      \<and> unterminated_line s = Some (Node (node_id (last (buffer_lines s)))))"


section \<open>Parity of trailing backslashes\<close>

declare trailing_escape_loop.simps [simp del]

lemma trailing_escape_loop_parity:
  "len \<le> int (length s) \<Longrightarrow>
   trailing_escape_loop s len b = Some (if odd (trailing_backslashes s len) then \<not> b else b)"
proof (induction s len b rule: trailing_escape_loop.induct)
  case (1 s len b)
  show ?case
  proof (cases "len - 1 \<ge> 0")
    case False
    then have "nat len = 0" by simp
    with False show ?thesis
      by (subst trailing_escape_loop.simps) (simp add: trailing_backslashes_def)
  next
    case True
    then have n: "nat len = Suc (nat (len - 1))" by simp
    from True "1.prems" have lt: "nat (len - 1) < length s" by simp
    have tk: "take (nat len) s = take (nat (len - 1)) s @ [s ! nat (len - 1)]"
      unfolding n using lt by (simp add: take_Suc_conv_app_nth)
    show ?thesis
    proof (cases "s ! nat (len - 1) = BSL")
      case False
      with True lt show ?thesis
        by (subst trailing_escape_loop.simps) (simp add: trailing_backslashes_def tk)
    next
      case bs: True
      have "trailing_escape_loop s (len - 1) (\<not> b)
            = Some (if odd (trailing_backslashes s (len - 1)) then \<not> \<not> b else \<not> b)"
        using "1.IH" [OF refl True lt bs] "1.prems" by simp
      moreover have "trailing_backslashes s len = Suc (trailing_backslashes s (len - 1))"
        by (simp add: trailing_backslashes_def tk bs)
      ultimately show ?thesis using True lt bs
        by (subst trailing_escape_loop.simps) simp
    qed
  qed
qed

text \<open>
  C6. For a string \<open>s\<close> and a length \<open>len\<close> within it, \<^verbatim>\<open>trailing_escape(s, len)\<close> is true
  exactly when the number of consecutive backslashes at the end of the first \<open>len\<close> bytes of
  \<open>s\<close> is odd.
\<close>

theorem trailing_escape_parity:
  assumes "len \<le> int (length s)"
  shows "trailing_escape s len = Some (odd (trailing_backslashes s len))"
  using trailing_escape_loop_parity [OF assms, of False]
  by (simp add: trailing_escape_def)

text \<open>
  The two lines of the claim: of the line \<open>a\<close>, backslash, backslash, newline, the three
  bytes before the newline have even parity; of the line \<open>a\<close>, backslash, newline, the two
  bytes before the newline have odd parity.
\<close>

theorem trailing_escape_parity_witness:
  "(3::int) \<le> int (length [97, 92, 92, 10 :: byte])
   \<and> trailing_escape [97, 92, 92, 10] 3 = Some False
   \<and> (2::int) \<le> int (length [97, 92, 10 :: byte])
   \<and> trailing_escape [97, 92, 10] 2 = Some True"
  using trailing_escape_parity [of 3 "[97, 92, 92, 10]"]
        trailing_escape_parity [of 2 "[97, 92, 10]"]
  by (simp add: trailing_backslashes_def BSL_def)

section \<open>Reading the standard input\<close>

lemma get_stdin_loop_no_newline:
  assumes "NL \<notin> set bs" and "\<forall>n \<le> length buf + length bs + 2. alloc_ok e n"
  shows "get_stdin_loop e bs False buf s =
           (Some (NUL # drop 1 (buf @ bs)), 0, [],
            (let s1 = set_error_msg ''Unexpected end-of-file''
                        (if NUL \<in> set bs then set_binary s else s)
             in if buf @ bs \<noteq> [] then s1\<lparr>linenum_v := linenum_v s1 + 1\<rparr> else s1))"
  using assms
proof (induction bs arbitrary: buf s)
  case Nil
  then show ?case by (simp add: resize_buffer_def Let_def)
next
  case (Cons c cs)
  have a: "alloc_ok e (length buf + 2)" using Cons.prems(2) by simp
  have ih: "get_stdin_loop e cs False (buf @ [c']) s' =
           (Some (NUL # drop 1 ((buf @ [c']) @ cs)), 0, [],
            (let s1 = set_error_msg ''Unexpected end-of-file''
                        (if NUL \<in> set cs then set_binary s' else s')
             in if (buf @ [c']) @ cs \<noteq> [] then s1\<lparr>linenum_v := linenum_v s1 + 1\<rparr> else s1))"
    for s' c'
    using Cons.prems by (intro Cons.IH) auto
  from Cons.prems(1) have c: "c \<noteq> NL" by auto
  show ?case
    using a c by (simp add: resize_buffer_def Let_def ih set_binary_def)
qed

lemma sint_incr:
  fixes x :: "32 word"
  assumes "sint x < 2147483647"
  shows "sint (x + 1) = sint x + 1"
proof -
  have "- (2 ^ 31) \<le> sint x" using sint_ge [of x] by simp
  with assms have "signed_take_bit 31 (sint x + 1) = sint x + 1"
    by (intro signed_take_bit_int_eq_self) simp_all
  then show ?thesis by (simp add: sint_word_ariths)
qed

text \<open>
  C9. When the standard input ends (end-of-file, not a read error) behind at least one
  byte and before any newline, \<^verbatim>\<open>get_stdin_line\<close> returns its buffer, not the null pointer:
  the buffer holds the empty string and the size is 0, \<^verbatim>\<open>++linenum_\<close> has been run once, so
  that the line counter is one more than before unless it stood at the greatest \<^verbatim>\<open>int\<close>, and
  the error message is \<open>Unexpected end-of-file\<close>.
\<close>

theorem get_stdin_line_partial_line:
  assumes "pending (stdin_v s) = bs" and "bs \<noteq> []" and "NL \<notin> set bs"
    and "\<not> rd_error (stdin_v s)"
    and "\<forall>n \<le> length bs + 2. alloc_ok e n"
  shows "case get_stdin_line e s of
           (r, sz, s') \<Rightarrow>
             r = Some (NUL # drop 1 bs) \<and> c_string (NUL # drop 1 bs) = [] \<and> sz = 0
             \<and> linenum_v s' = linenum_v s + 1
             \<and> (linenum s < 2147483647 \<longrightarrow> linenum s' = linenum s + 1)
             \<and> errmsg s' = bytes_of ''Unexpected end-of-file''
             \<and> pending (stdin_v s') = []"
  using assms get_stdin_loop_no_newline [of bs "[]" e s] sint_incr [of "linenum_v s"]
  by (simp add: get_stdin_line_def Let_def set_error_msg_def set_binary_def c_string_def
        linenum_def)

theorem get_stdin_line_partial_line_witness:
  "linenum (initial_state\<lparr>stdin_v := stream_of [97, 98]\<rparr>) = 0
   \<and> (case get_stdin_line plain_env (initial_state\<lparr>stdin_v := stream_of [97, 98]\<rparr>) of
        (r, sz, s') \<Rightarrow>
          r = Some [0, 98] \<and> sz = 0 \<and> linenum s' = 1
          \<and> errmsg s' = bytes_of ''Unexpected end-of-file'')"
  using get_stdin_line_partial_line
          [of "initial_state\<lparr>stdin_v := stream_of [97, 98]\<rparr>" "[97, 98]" plain_env]
  by (auto simp: plain_env_def initial_state_def stream_of_def NL_def NUL_def linenum_def
           split: prod.splits)

text \<open>
  At the greatest value of the counter the increment wraps around to the least one.
\<close>

lemma get_stdin_line_counter_wraps:
  "linenum (initial_state\<lparr>linenum_v := 2147483647\<rparr>) = 2147483647
   \<and> linenum (snd (snd (get_stdin_line plain_env
                 (initial_state\<lparr>linenum_v := 2147483647, stdin_v := stream_of [97]\<rparr>))))
       = - 2147483648"
  by (simp add: get_stdin_line_def plain_env_def initial_state_def stream_of_def NL_def NUL_def
        linenum_def resize_buffer_def set_error_msg_def Let_def)

section \<open>Reading one line of a stream\<close>

lemma read_line_loop_no_newline:
  assumes "NL \<notin> set bs" and "\<forall>n \<le> length buf + length bs + 2. alloc_ok e n"
  shows "read_line_loop e bs buf s =
           (At_EOF, buf @ bs, [], if NUL \<in> set bs then set_binary s else s)"
  using assms
proof (induction bs arbitrary: buf s)
  case Nil
  then show ?case by (simp add: resize_buffer_def)
next
  case (Cons c cs)
  have a: "alloc_ok e (length buf + 2)" using Cons.prems(2) by simp
  have ih: "read_line_loop e cs (buf @ [c']) s' =
              (At_EOF, (buf @ [c']) @ cs, [], if NUL \<in> set cs then set_binary s' else s')"
    for s' c'
    using Cons.prems by (intro Cons.IH) auto
  from Cons.prems(1) have c: "c \<noteq> NL" by auto
  show ?case
    using a c by (simp add: resize_buffer_def ih set_binary_def)
qed

text \<open>
  C3, as the code has it by design. When the stream ends (end-of-file, not a read error)
  behind at least one byte and before any newline, \<^verbatim>\<open>read_stream_line\<close> puts a newline behind
  the bytes and sets the newline-added flag. When the session is in binary mode by then
  (it was before the call, or a NUL byte has been read), the returned size does not count
  the added newline: it is the number of source bytes.
\<close>

theorem read_stream_line_unterminated:
  assumes "pending fp = bs" and "bs \<noteq> []" and "NL \<notin> set bs" and "\<not> rd_error fp"
    and "\<forall>n \<le> length bs + 2. alloc_ok e n"
  shows "case read_stream_line e fp na s of
           (r, fp1, na1, s1) \<Rightarrow>
             (case r of
                None \<Rightarrow> False
              | Some (buf, sz) \<Rightarrow>
                  buf = bs @ [NL, NUL] \<and> (isbinary s1 \<longrightarrow> sz = int (length bs)))
             \<and> na1 \<and> fp1 = fp\<lparr>pending := []\<rparr>
             \<and> s1 = (if NUL \<in> set bs then set_binary s else s)"
  using assms read_line_loop_no_newline [of bs "[]" e s]
  by (simp add: read_stream_line_def Let_def isbinary_def set_binary_def)

text \<open>
  In binary mode the stream \<open>ab\<close> gives the size 2; so does the stream of \<open>a\<close> and a NUL byte,
  which turns binary mode on.
\<close>

theorem read_stream_line_unterminated_witness:
  "isbinary (set_binary initial_state)
   \<and> read_stream_line plain_env (stream_of [97, 98]) False (set_binary initial_state) =
       (Some ([97, 98, 10, 0], 2), stream_of [], True, set_binary initial_state)
   \<and> read_stream_line plain_env (stream_of [97, 0]) False initial_state =
       (Some ([97, 0, 10, 0], 2), stream_of [], True, set_binary initial_state)"
  using read_stream_line_unterminated
          [where fp = "stream_of [97, 98]" and bs = "[97, 98]" and e = plain_env
             and na = False and s = "set_binary initial_state"]
        read_stream_line_unterminated
          [where fp = "stream_of [97, 0]" and bs = "[97, 0]" and e = plain_env
             and na = False and s = initial_state]
  by (auto simp: plain_env_def initial_state_def stream_of_def NL_def NUL_def
                isbinary_def set_binary_def split: prod.splits option.splits)

text \<open>
  The claim as it is written has the added byte counted once binary mode is active. For
  the one-byte stream \<open>a\<close> read in binary mode the returned size is 1, the number of source
  bytes, and not 2.
\<close>

theorem read_stream_line_size_counterexample:
  "isbinary (set_binary initial_state)
   \<and> fst (read_stream_line plain_env (stream_of [97]) False (set_binary initial_state))
       = Some ([97, 10, 0], 1)
   \<and> fst (read_stream_line plain_env (stream_of [97]) False (set_binary initial_state))
       \<noteq> Some ([97, 10, 0], 2)"
  by (simp add: read_stream_line_def plain_env_def initial_state_def stream_of_def
                resize_buffer_def isbinary_def set_binary_def NL_def NUL_def Let_def)

section \<open>The ingest loop\<close>

lemma set_binary_idem: "set_binary (set_binary s) = set_binary s"
  by (simp add: set_binary_def)

lemma read_line_loop_result:
  assumes "read_line_loop e bs buf s = (ex, buf1, rest, s1)" and "ex \<noteq> No_memory"
  shows "\<exists>l. buf1 = buf @ l \<and> bs = l @ rest
             \<and> s1 = (if NUL \<in> set l then set_binary s else s)
             \<and> (ex = At_EOF \<longrightarrow> rest = [] \<and> NL \<notin> set l)
             \<and> (ex = At_newline \<longrightarrow> (\<exists>t. l = t @ [NL] \<and> NL \<notin> set t))"
  using assms
proof (induction bs arbitrary: buf s)
  case Nil
  then show ?case by (auto split: if_splits)
next
  case (Cons c cs)
  from Cons.prems have ok: "resize_buffer e (length buf + 2)"
    by (auto split: if_splits)
  show ?case
  proof (cases "c = NUL")
    case True
    with Cons.prems ok have "read_line_loop e cs (buf @ [c]) (set_binary s) = (ex, buf1, rest, s1)"
      by simp
    from Cons.IH [OF this Cons.prems(2)] obtain l where
      l: "buf1 = (buf @ [c]) @ l" "cs = l @ rest"
         "s1 = (if NUL \<in> set l then set_binary (set_binary s) else set_binary s)"
         "ex = At_EOF \<longrightarrow> rest = [] \<and> NL \<notin> set l"
         "ex = At_newline \<longrightarrow> (\<exists>t. l = t @ [NL] \<and> NL \<notin> set t)"
      by blast
    have "NL \<noteq> NUL" by (simp add: NL_def NUL_def)
    with l True show ?thesis
      by (intro exI [of _ "c # l"]) (auto simp: set_binary_idem Cons_eq_append_conv)
  next
    case False
    show ?thesis
    proof (cases "c = NL")
      case True
      with Cons.prems ok False show ?thesis
        by (intro exI [of _ "[c]"]) auto
    next
      case nl: False
      with Cons.prems ok False have "read_line_loop e cs (buf @ [c]) s = (ex, buf1, rest, s1)"
        by simp
      from Cons.IH [OF this Cons.prems(2)] obtain l where
        l: "buf1 = (buf @ [c]) @ l" "cs = l @ rest"
           "s1 = (if NUL \<in> set l then set_binary s else s)"
           "ex = At_EOF \<longrightarrow> rest = [] \<and> NL \<notin> set l"
           "ex = At_newline \<longrightarrow> (\<exists>t. l = t @ [NL] \<and> NL \<notin> set t)"
        by blast
      with False nl show ?thesis
        by (intro exI [of _ "c # l"]) (auto simp: Cons_eq_append_conv)
    qed
  qed
qed

lemma read_stream_line_Some:
  assumes "read_stream_line e fp na s = (Some (buf, sz), fp1, na1, s1)"
  obtains
    (eof) "sz = 0" "pending fp = []" "pending fp1 = []" "na1 = na" "s1 = s"
  | (line) t where "pending fp = t @ NL # pending fp1" "NL \<notin> set t" "buf = t @ [NL, NUL]"
      "sz = int (length t) + 1" "na1 = na" "s1 = (if NUL \<in> set t then set_binary s else s)"
  | (last) "pending fp \<noteq> []" "NL \<notin> set (pending fp)" "pending fp1 = []"
      "buf = pending fp @ [NL, NUL]"
      "sz = (if isbinary s1 then int (length (pending fp)) else int (length (pending fp)) + 1)"
      "na1" "s1 = (if NUL \<in> set (pending fp) then set_binary s else s)"
proof -
  obtain ex buf1 rest s' where
    loop: "read_line_loop e (pending fp) [] s = (ex, buf1, rest, s')"
    by (cases "read_line_loop e (pending fp) [] s") auto
  with assms have ex: "ex \<noteq> No_memory"
    by (auto simp: read_stream_line_def Let_def)
  from read_line_loop_result [OF loop ex] obtain l where
    l: "buf1 = l" "pending fp = l @ rest"
       "s' = (if NUL \<in> set l then set_binary s else s)"
       "ex = At_EOF \<longrightarrow> rest = [] \<and> NL \<notin> set l"
       "ex = At_newline \<longrightarrow> (\<exists>t. l = t @ [NL] \<and> NL \<notin> set t)"
    by auto
  show thesis
  proof (cases ex)
    case No_memory
    with ex show ?thesis by simp
  next
    case At_newline
    with l obtain t where t: "l = t @ [NL]" "NL \<notin> set t" by auto
    have "NL \<noteq> NUL" by (simp add: NL_def NUL_def)
    with assms loop At_newline l t show ?thesis
      by (intro line [of t]) (auto simp: read_stream_line_def Let_def)
  next
    case At_EOF
    with l have r: "rest = []" "NL \<notin> set l" by auto
    show ?thesis
    proof (cases "l = []")
      case True
      with assms loop At_EOF l r show ?thesis
        by (intro eof) (auto simp: read_stream_line_def Let_def split: if_splits)
    next
      case False
      with assms loop At_EOF l r show ?thesis
        by (intro last) (auto simp: read_stream_line_def Let_def split: if_splits)
    qed
  qed
qed


lemma first_newline_append:
  assumes "NL \<notin> set t"
  shows "first_newline (t @ NL # r) = Some (length t)"
  using assms by (induction t) auto

lemma put_sbuf_line_line:
  assumes "NL \<notin> set t" and "int (length t) < n"
  shows "put_sbuf_line e (t @ [NL, NUL]) n s =
           (if \<not> sbuf_write_ok e (next_node s) then (False, s)
            else (True, s\<lparr>buffer_lines :=
                            take (nat (current_addr s)) (buffer_lines s)
                              @ \<lparr>node_id = next_node s, chars = t\<rparr>
                              # drop (nat (current_addr s)) (buffer_lines s),
                          next_node := Suc (next_node s),
                          current_addr_v := current_addr s + 1\<rparr>))"
proof -
  from assms(2) obtain k where k: "nat n = Suc (length t + k)"
    by (metis add_Suc less_imp_Suc_add nat_int zless_nat_conj zless_nat_eq_int_zless)
  have "take (nat n) (t @ [NL, NUL]) = t @ NL # take k [NUL]"
    unfolding k by simp
  then have "first_newline (take (nat n) (t @ [NL, NUL])) = Some (length t)"
    using first_newline_append [OF assms(1)] by simp
  then show ?thesis
    by (simp add: put_sbuf_line_def Let_def)
qed

lemma lines_from_run:
  assumes "NL \<notin> set t"
  shows "lines_from cur (t @ r) = lines_from (cur @ t) r"
  using assms by (induction t arbitrary: cur) auto

lemma split_lines_line:
  assumes "NL \<notin> set t"
  shows "split_lines (t @ NL # r) = t # split_lines r"
  using lines_from_run [OF assms, of "[]" "NL # r"] by (simp add: split_lines_def)

lemma split_lines_last:
  assumes "NL \<notin> set t" and "t \<noteq> []"
  shows "split_lines t = [t]"
  using lines_from_run [OF assms(1), of "[]" "[]"] assms(2) by (simp add: split_lines_def)

lemma ingested_refl: "ingested [] False s s"
  by (simp add: ingested_def)

lemma take_Suc_insert: "take (Suc n) (take n xs @ x # drop n xs) = take n xs @ [x]"
  by (cases "n \<le> length xs") (simp_all add: min_def)

lemma drop_Suc_insert: "drop (Suc n) (take n xs @ x # drop n xs) = drop n xs"
  by (cases "n \<le> length xs") (simp_all add: min_def)

lemma ingested_step:
  assumes "0 \<le> current_addr s"
    and "buffer_lines s' =
           take (nat (current_addr s)) (buffer_lines s) @ \<lparr>node_id = next_node s, chars = t\<rparr>
             # drop (nat (current_addr s)) (buffer_lines s)"
    and "next_node s' = Suc (next_node s)"
    and "current_addr s' = current_addr s + 1"
    and "isbinary s' = (isbinary s \<or> b1)"
    and "unterminated_line s' = unterminated_line s"
    and "stdout_v s' = stdout_v s"
    and "ingested ts b2 s' s1"
  shows "ingested (t # ts) (b1 \<or> b2) s s1"
proof -
  from assms(1) have n: "nat (current_addr s + 1) = Suc (nat (current_addr s))" by simp
  show ?thesis
    using assms(8)
    unfolding ingested_def assms(2-7) n take_Suc_insert drop_Suc_insert
    by auto
qed


declare read_stream_loop.simps [simp del]

lemma same_core_set_undo_tail: "same_core s (set_undo_tail lp s)"
  by (simp add: same_core_def set_undo_tail_def current_addr_def isbinary_def split: list.splits)

lemma same_core_push_undo_atom:
  "push_undo_atom e ty a b s = (ok, s') \<Longrightarrow> same_core s s'"
  by (auto simp: same_core_def push_undo_atom_def current_addr_def isbinary_def split: if_splits)

lemma read_stream_loop_stop:
  assumes "read_stream_line e fp na s = (Some (buf, sz), fp', na', s')" and "sz \<le> 0"
  shows "read_stream_loop e fp lp up tot na s = (True, fp', tot, na', s')"
  by (subst read_stream_loop.simps) (simp add: assms)

lemma read_stream_loop_step:
  assumes "read_stream_line e fp na s = (Some (buf, sz), fp', na', s')" and "0 < sz"
    and "put_sbuf_line e buf (sz + (if na' then 1 else 0)) s' = (ok, s2)"
    and "read_stream_loop e fp lp up tot na s = (True, fp1, tot1, na1, s1)"
  shows "ok \<and> (\<exists>lp' s3. same_core s2 s3 \<and>
           read_stream_loop e fp' lp' True (tot + sz) na' s3 = (True, fp1, tot1, na1, s1))"
proof -
  have ok: ok
    using assms(4)
    by (subst (asm) read_stream_loop.simps) (use assms(1-3) in \<open>cases ok; simp\<close>)
  show ?thesis
  proof (cases up)
    case True
    then have "read_stream_loop e fp' (q_forw s2 lp) True (tot + sz) na'
                 (set_undo_tail (q_forw s2 lp) s2) = (True, fp1, tot1, na1, s1)"
      using assms(4) ok
      by (subst (asm) read_stream_loop.simps) (use assms(1-3) in \<open>simp add: Let_def\<close>)
    with ok same_core_set_undo_tail show ?thesis by blast
  next
    case False
    obtain ok3 s3 where
      p: "push_undo_atom e UADD (current_addr s2) (current_addr s2) s2 = (ok3, s3)"
      by (cases "push_undo_atom e UADD (current_addr s2) (current_addr s2) s2") auto
    with False have "ok3 \<and> read_stream_loop e fp' (q_forw s2 lp) True (tot + sz) na' s3
                       = (True, fp1, tot1, na1, s1)"
      using assms(4) ok
      by (subst (asm) read_stream_loop.simps)
         (use assms(1-3) in \<open>cases ok3; simp add: Let_def\<close>)
    with ok same_core_push_undo_atom [OF p] show ?thesis by blast
  qed
qed

lemma read_stream_loop_None:
  assumes "read_stream_line e fp na s = (None, fp', na', s')"
  shows "read_stream_loop e fp lp up tot na s = (False, fp', tot, na', s')"
  by (subst read_stream_loop.simps) (simp add: assms)


lemma put_core:
  assumes "NL \<notin> set t" and "int (length t) < n" and "0 \<le> current_addr s"
    and "put_sbuf_line e (t @ [NL, NUL]) n (if b then set_binary s else s) = (True, s2)"
    and "same_core s2 s3" and "ingested ts b2 s3 s1"
  shows "ingested (t # ts) (b \<or> b2) s s1"
proof -
  let ?s' = "if b then set_binary s else s"
  have s': "buffer_lines ?s' = buffer_lines s" "next_node ?s' = next_node s"
    "current_addr ?s' = current_addr s" "isbinary ?s' = (isbinary s \<or> b)"
    "unterminated_line ?s' = unterminated_line s" "stdout_v ?s' = stdout_v s"
    by (simp_all add: set_binary_def current_addr_def isbinary_def)
  from assms(4) have s2: "s2 = ?s'\<lparr>buffer_lines :=
                            take (nat (current_addr ?s')) (buffer_lines ?s')
                              @ \<lparr>node_id = next_node ?s', chars = t\<rparr>
                              # drop (nat (current_addr ?s')) (buffer_lines ?s'),
                          next_node := Suc (next_node ?s'),
                          current_addr_v := current_addr ?s' + 1\<rparr>"
    unfolding put_sbuf_line_line [OF assms(1,2)] by (simp split: if_splits)
  have "buffer_lines s2 = take (nat (current_addr s)) (buffer_lines s)
          @ \<lparr>node_id = next_node s, chars = t\<rparr> # drop (nat (current_addr s)) (buffer_lines s)"
    "next_node s2 = Suc (next_node s)" "current_addr s2 = current_addr s + 1"
    "isbinary s2 = (isbinary s \<or> b)" "unterminated_line s2 = unterminated_line s"
    "stdout_v s2 = stdout_v s"
    unfolding s' [symmetric] by (subst s2, simp add: current_addr_def isbinary_def)+
  with assms(5) have
    "buffer_lines s3 = take (nat (current_addr s)) (buffer_lines s)
          @ \<lparr>node_id = next_node s, chars = t\<rparr> # drop (nat (current_addr s)) (buffer_lines s)"
    "next_node s3 = Suc (next_node s)" "current_addr s3 = current_addr s + 1"
    "isbinary s3 = (isbinary s \<or> b)" "unterminated_line s3 = unterminated_line s"
    "stdout_v s3 = stdout_v s"
    by (simp_all add: same_core_def)
  from ingested_step [OF assms(3) this assms(6)] show ?thesis .
qed

lemma read_stream_loop_True:
  assumes "read_stream_loop e fp lp up tot na s = (True, fp1, tot1, na1, s1)"
    and "0 \<le> current_addr s"
  shows "ingested (split_lines (pending fp)) (NUL \<in> set (pending fp)) s s1
       \<and> pending fp1 = []
       \<and> na1 = (na \<or> (pending fp \<noteq> [] \<and> last (pending fp) \<noteq> NL))
       \<and> tot1 = tot + int (length (pending fp))
                  + (if pending fp \<noteq> [] \<and> last (pending fp) \<noteq> NL \<and> \<not> isbinary s1
                     then 1 else 0)"
  using assms
proof (induction "length (pending fp)" arbitrary: fp lp up tot na s rule: less_induct)
  case less
  obtain x fp' na' s' where r: "read_stream_line e fp na s = (x, fp', na', s')"
    by (cases "read_stream_line e fp na s") auto
  show ?case
  proof (cases x)
    case None
    with r less.prems(1) show ?thesis
      by (simp add: read_stream_loop_None)
  next
    case (Some bz)
    obtain buf sz where bz: "bz = (buf, sz)" by (cases bz) auto
    from r Some bz have r': "read_stream_line e fp na s = (Some (buf, sz), fp', na', s')"
      by simp
    obtain ok s2 where put: "put_sbuf_line e buf (sz + (if na' then 1 else 0)) s' = (ok, s2)"
      by (cases "put_sbuf_line e buf (sz + (if na' then 1 else 0)) s'") auto
    from r' show ?thesis
    proof (cases rule: read_stream_line_Some)
      case eof
      with read_stream_loop_stop [OF r', of lp up tot] less.prems(1)
      show ?thesis by (simp add: split_lines_def ingested_refl)
    next
      case (line t)
      then have pos: "0 < sz" by simp
      from read_stream_loop_step [OF r' pos put less.prems(1)] obtain lp' s3 where
        ok: ok and core: "same_core s2 s3"
        and rec: "read_stream_loop e fp' lp' True (tot + sz) na' s3 = (True, fp1, tot1, na1, s1)"
        by blast
      have put': "put_sbuf_line e (t @ [NL, NUL]) (sz + (if na' then 1 else 0))
                    (if NUL \<in> set t then set_binary s else s) = (True, s2)"
        using put ok line by simp
      have lt: "int (length t) < sz + (if na' then 1 else 0)" using line by simp
      have shorter: "length (pending fp') < length (pending fp)" using line by simp
      have "current_addr s3 = current_addr s + 1"
        using put' core unfolding put_sbuf_line_line [OF line(2) lt]
        by (auto simp: same_core_def current_addr_def set_binary_def split: if_splits)
      with less.prems(2) have ca: "0 \<le> current_addr s3" by simp
      from less.hyps [OF shorter rec ca] have
        ih: "ingested (split_lines (pending fp')) (NUL \<in> set (pending fp')) s3 s1"
            "pending fp1 = []"
            "na1 = (na' \<or> (pending fp' \<noteq> [] \<and> last (pending fp') \<noteq> NL))"
            "tot1 = tot + sz + int (length (pending fp'))
                  + (if pending fp' \<noteq> [] \<and> last (pending fp') \<noteq> NL \<and> \<not> isbinary s1
                     then 1 else 0)"
        by simp_all
      have ing: "ingested (t # split_lines (pending fp'))
                   (NUL \<in> set t \<or> NUL \<in> set (pending fp')) s s1"
        by (rule put_core [OF line(2) lt less.prems(2) put' core ih(1)])
      have "NL \<noteq> NUL" by (simp add: NL_def NUL_def)
      with ing ih line show ?thesis
        by (auto simp: split_lines_line)
    next
      case last
      then have pos: "0 < sz" by (auto split: if_splits)
      from read_stream_loop_step [OF r' pos put less.prems(1)] obtain lp' s3 where
        ok: ok and core: "same_core s2 s3"
        and rec: "read_stream_loop e fp' lp' True (tot + sz) na' s3 = (True, fp1, tot1, na1, s1)"
        by blast
      have put': "put_sbuf_line e (pending fp @ [NL, NUL]) (sz + (if na' then 1 else 0))
                    (if NUL \<in> set (pending fp) then set_binary s else s) = (True, s2)"
        using put ok last by simp
      have lt: "int (length (pending fp)) < sz + (if na' then 1 else 0)"
        using last by (auto split: if_splits)
      have shorter: "length (pending fp') < length (pending fp)" using last by simp
      have "current_addr s3 = current_addr s + 1" "isbinary s3 = isbinary s'"
        using put' core last(7) unfolding put_sbuf_line_line [OF last(2) lt]
        by (auto simp: same_core_def current_addr_def isbinary_def set_binary_def
                 split: if_splits)
      with less.prems(2) have ca: "0 \<le> current_addr s3" and bin: "isbinary s3 = isbinary s'"
        by simp_all
      from less.hyps [OF shorter rec ca] last(3) have
        ih: "ingested [] False s3 s1" "pending fp1 = []" "na1 = na'" "tot1 = tot + sz"
        by (simp_all add: split_lines_def)
      from ih(1) bin have bin1: "isbinary s1 = isbinary s'" by (simp add: ingested_def)
      have ing: "ingested (pending fp # []) (NUL \<in> set (pending fp) \<or> False) s s1"
        by (rule put_core [OF last(2) lt less.prems(2) put' core ih(1)])
      from last(2) last(1) have "last (pending fp) \<noteq> NL"
        using last_in_set by metis
      with ing ih last bin1 show ?thesis
        by (simp add: split_lines_last)
    qed
  qed
qed

section \<open>A successful ingest\<close>

lemma read_stream_Some:
  assumes "read_stream e fp addr s = (Some n, fp1, s1)" and "0 \<le> addr"
  shows "buffer_lines s1 =
           take (nat addr) (buffer_lines s) @ fresh_lines (next_node s) (split_lines (pending fp))
             @ drop (nat addr) (buffer_lines s)"
    and "next_node s1 = next_node s + length (split_lines (pending fp))"
    and "current_addr s1 = addr + int (length (split_lines (pending fp)))"
    and "isbinary s1 = (isbinary s \<or> NUL \<in> set (pending fp))"
    and "stdout_v s1 = stdout_v s @
           (if addr \<noteq> 0 \<and> addr = last_addr s \<and> pending fp \<noteq> [] \<and> unterminated_last_line s
            then message_inserted
            else if lacks_newline (pending fp) \<and> (addr \<noteq> last_addr s \<or> \<not> isbinary s1)
            then message_appended else [])"
    and "unterminated_line s1 =
           (if addr = last_addr s \<and> isbinary s1 \<and> (lacks_newline (pending fp) \<or> pending fp = [])
            then Some (search_line_node s1 (last_addr s1)) else unterminated_line s)"
    and "n = int (length (pending fp))
             + (if lacks_newline (pending fp)
                   \<and> (\<not> isbinary s1 \<or> (addr \<noteq> last_addr s \<and> \<not> isbinary s))
                then 1 else 0)"
    and "pending fp1 = []"
proof -
  let ?s0 = "set_current_addr addr s"
  obtain ok fp' tot na s' where
    loop: "read_stream_loop e fp (search_line_node s addr) False 0 False ?s0
             = (ok, fp', tot, na, s')"
    by (cases "read_stream_loop e fp (search_line_node s addr) False 0 False ?s0") auto
  have ok: ok
    using assms(1) loop by (cases ok; simp add: read_stream_def Let_def)
  have ca: "0 \<le> current_addr ?s0"
    using assms(2) by (simp add: set_current_addr_def current_addr_def)
  from read_stream_loop_True [OF loop [unfolded ok [THEN eqTrueI]] ca] have
    ing: "ingested (split_lines (pending fp)) (NUL \<in> set (pending fp)) ?s0 s'"
    and pend: "pending fp' = []"
    and na: "na = lacks_newline (pending fp)"
    and tot: "tot = int (length (pending fp))
                + (if lacks_newline (pending fp) \<and> \<not> isbinary s' then 1 else 0)"
    by (simp_all add: lacks_newline_def)
  from ing have s': 
    "buffer_lines s' =
           take (nat addr) (buffer_lines s) @ fresh_lines (next_node s) (split_lines (pending fp))
             @ drop (nat addr) (buffer_lines s)"
    "next_node s' = next_node s + length (split_lines (pending fp))"
    "current_addr s' = addr + int (length (split_lines (pending fp)))"
    "isbinary s' = (isbinary s \<or> NUL \<in> set (pending fp))"
    "unterminated_line s' = unterminated_line s"
    "stdout_v s' = stdout_v s"
    by (simp_all add: ingested_def set_current_addr_def current_addr_def isbinary_def)
  have tot0: "tot \<noteq> 0 \<longleftrightarrow> pending fp \<noteq> []"
    unfolding tot by (auto simp: lacks_newline_def)
  define msg where "msg =
           (if addr \<noteq> 0 \<and> addr = last_addr s \<and> pending fp \<noteq> [] \<and> unterminated_last_line s
            then message_inserted
            else if lacks_newline (pending fp) \<and> (addr \<noteq> last_addr s \<or> \<not> isbinary s')
            then message_appended else [])"
  define s2 where "s2 =
               (if addr \<noteq> 0 \<and> addr = last_addr s \<and> tot \<noteq> 0 \<and> unterminated_last_line s
                then put_bytes (bytes_of ''Newline inserted'' @ [NL]) s'
                else if na \<and> (\<not> addr = last_addr s \<or> \<not> isbinary s')
                then put_bytes (bytes_of ''Newline appended'' @ [NL]) s'
                else s')"
  define n1 where "n1 = (if \<not> addr = last_addr s \<and> isbinary s2 \<and> \<not> isbinary s \<and> na
                          then tot + 1 else tot)"
  define s3 where "s3 =
          (if addr = last_addr s \<and> isbinary s2 \<and> (na \<or> n1 = 0)
           then s2\<lparr>unterminated_line := Some (search_line_node s2 (last_addr s2))\<rparr> else s2)"
  have "read_stream e fp addr s = (Some n1, fp', s3)"
    unfolding read_stream_def Let_def loop
    by (simp only: ok [THEN eqTrueI] prod.case bool.case s2_def n1_def s3_def)
  with assms(1) have res: "n = n1" "fp1 = fp'" "s1 = s3"
    by simp_all
  have s2_eq: "s2 = put_bytes msg s'"
    unfolding s2_def msg_def tot0 na
    by (simp add: message_inserted_def message_appended_def put_bytes_def)
  have s2: "buffer_lines s2 = buffer_lines s'" "next_node s2 = next_node s'"
    "current_addr s2 = current_addr s'" "isbinary s2 = isbinary s'"
    "unterminated_line s2 = unterminated_line s'" "stdout_v s2 = stdout_v s' @ msg"
    by (simp_all add: s2_eq put_bytes_def current_addr_def isbinary_def)
  have n10: "n1 = 0 \<longleftrightarrow> pending fp = []"
    unfolding n1_def tot by (auto simp: lacks_newline_def na)
  have s1: "buffer_lines s1 = buffer_lines s'" "next_node s1 = next_node s'"
    "current_addr s1 = current_addr s'" "isbinary s1 = isbinary s'"
    "stdout_v s1 = stdout_v s' @ msg"
    unfolding res(3) s3_def using s2 by (simp_all add: current_addr_def isbinary_def)
  show "buffer_lines s1 =
           take (nat addr) (buffer_lines s) @ fresh_lines (next_node s) (split_lines (pending fp))
             @ drop (nat addr) (buffer_lines s)"
    and "next_node s1 = next_node s + length (split_lines (pending fp))"
    and "current_addr s1 = addr + int (length (split_lines (pending fp)))"
    and "isbinary s1 = (isbinary s \<or> NUL \<in> set (pending fp))"
    using s1 s' by simp_all
  show "stdout_v s1 = stdout_v s @
           (if addr \<noteq> 0 \<and> addr = last_addr s \<and> pending fp \<noteq> [] \<and> unterminated_last_line s
            then message_inserted
            else if lacks_newline (pending fp) \<and> (addr \<noteq> last_addr s \<or> \<not> isbinary s1)
            then message_appended else [])"
    unfolding s1 s'(6) msg_def ..
  have sl: "search_line_node s2 (last_addr s2) = search_line_node s1 (last_addr s1)"
    using s1(1) s2(1) by (simp add: search_line_node_def last_addr_def)
  show "unterminated_line s1 =
           (if addr = last_addr s \<and> isbinary s1 \<and> (lacks_newline (pending fp) \<or> pending fp = [])
            then Some (search_line_node s1 (last_addr s1)) else unterminated_line s)"
  proof -
    have "unterminated_line s1 =
            (if addr = last_addr s \<and> isbinary s2 \<and> (na \<or> n1 = 0)
             then Some (search_line_node s2 (last_addr s2)) else unterminated_line s2)"
      unfolding res(3) s3_def by auto
    then show ?thesis
      unfolding sl n10 na s2(4,5) s'(5) s1(4) by auto
  qed
  show "n = int (length (pending fp))
             + (if lacks_newline (pending fp)
                   \<and> (\<not> isbinary s1 \<or> (addr \<noteq> last_addr s \<and> \<not> isbinary s))
                then 1 else 0)"
    unfolding res(1) n1_def tot na s2(4) s1(4) by auto
  show "pending fp1 = []" using res(2) pend by simp
qed

section \<open>The status message and the marker\<close>

lemmas eval_defs =
  read_stream_def read_stream_loop.simps read_stream_line_def Let_def
  plain_env_def initial_state_def stream_of_def set_binary_def isbinary_def
  resize_buffer_def put_sbuf_line_def push_undo_atom_def set_undo_tail_def
  search_line_node_def last_addr_def current_addr_def set_current_addr_def
  unterminated_last_line_def q_forw_def addr_of_def NL_def NUL_def put_bytes_def

lemma last_line_marked_iff:
  "last_line_marked s \<longleftrightarrow> last_addr s \<noteq> 0 \<and> unterminated_last_line s"
proof (cases "buffer_lines s = []")
  case True
  then show ?thesis by (simp add: last_line_marked_def last_addr_def)
next
  case False
  then have "0 < length (buffer_lines s)" by simp
  then have "search_line_node s (last_addr s) = Node (node_id (last (buffer_lines s)))"
    using False
    by (simp add: search_line_node_def last_addr_def last_conv_nth nat_diff_distrib'
          Suc_le_eq)
  with False show ?thesis
    by (auto simp: last_line_marked_def unterminated_last_line_def last_addr_def)
qed

text \<open>
  C4. After a successful ingest at address \<open>addr\<close>, exactly one of three things has gone
  to the standard output. \<open>Newline inserted\<close> is printed if and only if the insertion is an
  append (the address is the prior last address), the total of bytes read is not zero, and
  the prior last line held the marker; otherwise \<open>Newline appended\<close> is printed if and only
  if the last read synthesized a trailing newline (the stream did not end in one) and the
  insertion is not an append or the session is not in binary mode; otherwise nothing is
  printed. The total is zero exactly when the stream was empty.
\<close>

theorem read_stream_status_message:
  assumes "read_stream e fp addr s = (Some n, fp1, s1)" and "0 \<le> addr"
  shows "stdout_v s1 = stdout_v s @
           (if addr = last_addr s \<and> n \<noteq> 0 \<and> last_line_marked s
            then message_inserted
            else if lacks_newline (pending fp) \<and> (addr \<noteq> last_addr s \<or> \<not> isbinary s1)
            then message_appended else [])
         \<and> (n \<noteq> 0 \<longleftrightarrow> pending fp \<noteq> [])"
proof -
  have n: "n \<noteq> 0 \<longleftrightarrow> pending fp \<noteq> []"
    unfolding read_stream_Some(7) [OF assms] by (auto simp: lacks_newline_def)
  have c: "(addr \<noteq> 0 \<and> addr = last_addr s \<and> pending fp \<noteq> [] \<and> unterminated_last_line s)
             \<longleftrightarrow> (addr = last_addr s \<and> pending fp \<noteq> [] \<and> last_line_marked s)"
    unfolding last_line_marked_iff by auto
  show ?thesis
    unfolding n read_stream_Some(5) [OF assms] c by simp
qed

text \<open>
  Both messages occur: \<open>a\<close> read into the empty collection in text mode is answered by
  \<open>Newline appended\<close>; a line read behind the line that holds the marker, by
  \<open>Newline inserted\<close>.
\<close>

theorem read_stream_status_message_witness:
  "fst (read_stream plain_env (stream_of [97]) 0 initial_state) = Some 2
   \<and> stdout_v (snd (snd (read_stream plain_env (stream_of [97]) 0 initial_state)))
       = message_appended
   \<and> last_line_marked (snd (snd (read_stream plain_env (stream_of [0]) 0 initial_state)))
   \<and> fst (read_stream plain_env (stream_of [98, 10]) 1
            (snd (snd (read_stream plain_env (stream_of [0]) 0 initial_state)))) = Some 2
   \<and> stdout_v (snd (snd (read_stream plain_env (stream_of [98, 10]) 1
            (snd (snd (read_stream plain_env (stream_of [0]) 0 initial_state))))))
       = message_inserted"
proof -
  let ?r = "read_stream plain_env (stream_of [97]) 0 initial_state"
  have a: "fst ?r = Some 2" "fst (snd ?r) = stream_of []" "\<not> isbinary (snd (snd ?r))"
    by (simp_all add: eval_defs)
  then have "?r = (Some 2, stream_of [], snd (snd ?r))"
    by (simp add: prod_eq_iff)
  from read_stream_status_message [OF this] a(3)
  have 1: "stdout_v (snd (snd ?r)) = message_appended"
    by (simp add: initial_state_def stream_of_def lacks_newline_def NL_def last_addr_def
          last_line_marked_def)
  let ?s = "snd (snd (read_stream plain_env (stream_of [0]) 0 initial_state))"
  have s: "?s = \<lparr>buffer_lines = [\<lparr>node_id = 0, chars = [0]\<rparr>], next_node = 1,
      current_addr_v = 1,
      undo_stack = [\<lparr>utype = UADD, uhead = Node 0, utail = Node 0\<rparr>],
      isbinary_v = True, unterminated_line = Some (Node 0), linenum_v = 0, textmode = False,
      errmsg = [], stdout_v = [], stdin_v = \<lparr>pending = [], rd_error = False\<rparr>,
      files = (\<lambda>name. None), pipes = []\<rparr>"
    by (simp add: eval_defs)
  have m: "last_line_marked ?s"
    unfolding s by (simp add: last_line_marked_def)
  let ?q = "read_stream plain_env (stream_of [98, 10]) 1 ?s"
  have b: "fst ?q = Some 2" "fst (snd ?q) = stream_of []"
    unfolding s by (simp_all add: eval_defs)
  then have "?q = (Some 2, stream_of [], snd (snd ?q))"
    by (simp add: prod_eq_iff)
  from read_stream_status_message [OF this] m
  have 2: "stdout_v (snd (snd ?q)) = message_inserted"
    unfolding s by (simp add: stream_of_def last_addr_def)
  from a(1) 1 m b(1) 2 show ?thesis by simp
qed

text \<open>
  C5, as the code has it. The stream \<open>a\<close>, without a newline, read into an empty collection
  in binary mode: \<^verbatim>\<open>read_stream\<close> returns the size 1, the collection holds the one line \<open>a\<close>,
  the marker points at it, which is the last line, and nothing is printed.
\<close>

theorem read_stream_single_byte_binary:
  assumes "buffer_lines s = []" and "isbinary s"
    and "alloc_ok e 2" and "alloc_ok e 3" and "sbuf_write_ok e (next_node s)"
    and "undo_ok e (length (undo_stack s))"
  shows "case read_stream e (stream_of [97]) 0 s of
           (r, fp1, s1) \<Rightarrow>
             r = Some 1 \<and> stdout_v s1 = stdout_v s
             \<and> buffer_lines s1 = [\<lparr>node_id = next_node s, chars = [97]\<rparr>]
             \<and> unterminated_line s1 = Some (Node (next_node s))
             \<and> unterminated_line s1 = Some (search_line_node s1 (last_addr s1))"
proof -
  have "alloc_ok e (Suc (Suc 0))" "alloc_ok e (Suc (Suc (Suc 0)))"
    using assms(3,4) by (simp_all add: numeral_2_eq_2 numeral_3_eq_3)
  with assms(1,2,5,6) show ?thesis
  by (simp add: read_stream_def read_stream_loop.simps read_stream_line_def Let_def
        stream_of_def set_binary_def isbinary_def
        resize_buffer_def put_sbuf_line_def push_undo_atom_def set_undo_tail_def
        search_line_node_def last_addr_def current_addr_def set_current_addr_def
        unterminated_last_line_def q_forw_def addr_of_def NL_def NUL_def put_bytes_def)
qed

theorem read_stream_single_byte_binary_witness:
  "case read_stream plain_env (stream_of [97]) 0 (set_binary initial_state) of
     (r, fp1, s1) \<Rightarrow>
       r = Some 1 \<and> stdout_v s1 = [] \<and> buffer_lines s1 = [\<lparr>node_id = 0, chars = [97]\<rparr>]
       \<and> unterminated_line s1 = Some (Node 0)"
  using read_stream_single_byte_binary [of "set_binary initial_state" plain_env]
  by (auto simp: plain_env_def initial_state_def set_binary_def isbinary_def
           split: prod.splits)

text \<open>
  The claim as it is written has \<open>Newline appended\<close> printed; in binary mode an append
  prints nothing.
\<close>

theorem read_stream_single_byte_counterexample:
  "fst (read_stream plain_env (stream_of [97]) 0 (set_binary initial_state)) = Some 1
   \<and> stdout_v (snd (snd (read_stream plain_env (stream_of [97]) 0 (set_binary initial_state))))
       = []
   \<and> stdout_v (snd (snd (read_stream plain_env (stream_of [97]) 0 (set_binary initial_state))))
       \<noteq> message_appended"
  by (simp add: eval_defs message_appended_def bytes_of_def)

section \<open>The emit loop\<close>

declare write_stream_loop.simps [simp del]








section \<open>When nothing fails\<close>









section \<open>Ingest, then emit\<close>




lemma length_fresh_lines [simp]: "length (fresh_lines k ts) = length ts"
  by (induction ts arbitrary: k) auto

















section \<open>The newline at the end of an emitted range\<close>







section \<open>Writing an empty range to a file\<close>

lemma write_stream_empty:
  assumes "a = 0 \<or> to < a"
  shows "write_stream e fp a to s = (Some 0, fp, s)"
  using assms by (auto simp: write_stream_def write_stream_loop.simps)

text \<open>
  C10, as the code has it. When the range is empty (\<open>a\<close> is 0, or \<open>a\<close> is greater than \<open>to\<close>),
  \<^verbatim>\<open>write_stream\<close> writes no byte and returns 0. Built with \<^verbatim>\<open>__OS2__\<close>, \<^verbatim>\<open>write_file\<close> runs into
  undefined behaviour before it opens anything when \<^verbatim>\<open>textmode\<close> is set or \<^verbatim>\<open>malloc\<close> fails. In
  every other case it returns, and it has opened its target in the requested mode: a pipe
  is started and gets no bytes; a file opened in a write mode is created or cut to length
  zero; a file opened in an append mode is created or keeps its bytes; a file opened in a
  read mode must exist and keeps its bytes. If the target opens and closes, the result is
  0, and the size 0 is printed unless the session is scripted; if it does not open, or
  does not close, the result is -1.
\<close>

theorem write_file_empty_range:
  assumes "a = 0 \<or> to < a"
  shows "(\<forall>fp s1. write_stream e fp a to s1 = (Some 0, fp, s1))
       \<and> (case write_file e filename mode a to s of
            Undefined_behaviour \<Rightarrow> os2 e \<and> (textmode s \<or> \<not> malloc_ok e (length mode + 2))
          | Returns r s' \<Rightarrow>
              \<not> (os2 e \<and> (textmode s \<or> \<not> malloc_ok e (length mode + 2)))
              \<and> (if take 1 filename = bytes_of ''!'' then
                   (if open_ok e (To_pipe (drop 1 filename)) then
                      pipes s' = pipes s @ [(drop 1 filename, [])] \<and> files s' = files s
                      \<and> r = (if close_ok e (To_pipe (drop 1 filename)) then Some 0 else None)
                    else pipes s' = pipes s \<and> files s' = files s \<and> r = None)
                 else
                   (let name = strip_escapes e filename;
                        m = (if os2 e then mode @ bytes_of ''b'' else mode)
                    in if open_ok e (To_file name) \<and> take 1 m = bytes_of ''w'' then
                         files s' = (files s)(name \<mapsto> []) \<and> pipes s' = pipes s
                         \<and> r = (if close_ok e (To_file name) then Some 0 else None)
                       else if open_ok e (To_file name) \<and> take 1 m = bytes_of ''a'' then
                         files s' = (files s)(name \<mapsto>
                                       (case files s name of None \<Rightarrow> [] | Some old \<Rightarrow> old))
                         \<and> pipes s' = pipes s
                         \<and> r = (if close_ok e (To_file name) then Some 0 else None)
                       else if open_ok e (To_file name) \<and> take 1 m = bytes_of ''r''
                               \<and> files s name \<noteq> None then
                         files s' = files s \<and> pipes s' = pipes s
                         \<and> r = (if close_ok e (To_file name) then Some 0 else None)
                       else files s' = files s \<and> pipes s' = pipes s \<and> r = None))
              \<and> stdout_v s' = stdout_v s @ (if r = Some 0 \<and> \<not> scripted e then [48, NL] else []))"
proof (cases "os2 e \<and> (textmode s \<or> \<not> malloc_ok e (length mode + 2))")
  case True
  then have "write_file e filename mode a to s = Undefined_behaviour"
    by (simp add: write_file_def)
  with True show ?thesis
    using write_stream_empty [OF assms] by simp
next
  case defined: False
  have z: "dec_digits 0 = [48]" by simp
  have range: "\<not> (a \<noteq> 0 \<and> a \<le> to)" using assms by auto
  note defs = write_file_def write_stream_empty [OF assms] open_output_def close_output_def
    Let_def set_error_msg_def put_bytes_def z range
  have "(case write_file e filename mode a to s of
            Undefined_behaviour \<Rightarrow> os2 e \<and> (textmode s \<or> \<not> malloc_ok e (length mode + 2))
          | Returns r s' \<Rightarrow>
              \<not> (os2 e \<and> (textmode s \<or> \<not> malloc_ok e (length mode + 2)))
              \<and> (if take 1 filename = bytes_of ''!'' then
                   (if open_ok e (To_pipe (drop 1 filename)) then
                      pipes s' = pipes s @ [(drop 1 filename, [])] \<and> files s' = files s
                      \<and> r = (if close_ok e (To_pipe (drop 1 filename)) then Some 0 else None)
                    else pipes s' = pipes s \<and> files s' = files s \<and> r = None)
                 else
                   (let name = strip_escapes e filename;
                        m = (if os2 e then mode @ bytes_of ''b'' else mode)
                    in if open_ok e (To_file name) \<and> take 1 m = bytes_of ''w'' then
                         files s' = (files s)(name \<mapsto> []) \<and> pipes s' = pipes s
                         \<and> r = (if close_ok e (To_file name) then Some 0 else None)
                       else if open_ok e (To_file name) \<and> take 1 m = bytes_of ''a'' then
                         files s' = (files s)(name \<mapsto>
                                       (case files s name of None \<Rightarrow> [] | Some old \<Rightarrow> old))
                         \<and> pipes s' = pipes s
                         \<and> r = (if close_ok e (To_file name) then Some 0 else None)
                       else if open_ok e (To_file name) \<and> take 1 m = bytes_of ''r''
                               \<and> files s name \<noteq> None then
                         files s' = files s \<and> pipes s' = pipes s
                         \<and> r = (if close_ok e (To_file name) then Some 0 else None)
                       else files s' = files s \<and> pipes s' = pipes s \<and> r = None))
              \<and> stdout_v s' = stdout_v s @ (if r = Some 0 \<and> \<not> scripted e then [48, NL] else []))"
  proof (cases "take 1 filename = bytes_of ''!''")
    case True
    with defined show ?thesis
      by (cases "open_ok e (To_pipe (drop 1 filename))")
         (simp_all add: defs del: dec_digits.simps)
  next
    case False
    let ?name = "strip_escapes e filename"
    let ?m = "if os2 e then mode @ bytes_of ''b'' else mode"
    show ?thesis
    proof (cases "open_ok e (To_file ?name)")
      case no: False
      with False defined show ?thesis
        by (simp add: defs del: dec_digits.simps)
    next
      case yes: True
      consider (w) "take 1 ?m = bytes_of ''w''"
        | (a) "take 1 ?m \<noteq> bytes_of ''w''" "take 1 ?m = bytes_of ''a''"
        | (r) "take 1 ?m \<noteq> bytes_of ''w''" "take 1 ?m \<noteq> bytes_of ''a''"
              "take 1 ?m = bytes_of ''r''" "files s ?name \<noteq> None"
        | (other) "take 1 ?m \<noteq> bytes_of ''w''" "take 1 ?m \<noteq> bytes_of ''a''"
              "take 1 ?m \<noteq> bytes_of ''r'' \<or> files s ?name = None"
        by blast
      then show ?thesis
      proof cases
        case w
        with False yes defined show ?thesis
          by (cases "os2 e") (simp_all add: defs del: dec_digits.simps)
      next
        case a
        with False yes defined show ?thesis
          by (cases "os2 e") (simp_all add: defs del: dec_digits.simps)
      next
        case r
        then obtain old where old: "files s ?name = Some old" by auto
        then have same: "(files s)(?name \<mapsto> old) = files s"
          by (simp add: fun_upd_idem)
        from r False yes defined old show ?thesis
          by (cases "os2 e"; cases "43 \<in> set ?m")
             (simp_all add: defs same del: dec_digits.simps)
      next
        case other
        with False yes defined show ?thesis
          by (cases "os2 e") (auto simp: defs simp del: dec_digits.simps)
      qed
    qed
  qed
  then show ?thesis
    using write_stream_empty [OF assms] by blast
qed

text \<open>
  On a system that is not OS/2, writing the empty range to the file \<open>f\<close> in mode \<open>w\<close> cuts
  the file to length zero, returns 0 and prints the size 0. Built with \<^verbatim>\<open>__OS2__\<close> and with
  \<^verbatim>\<open>textmode\<close> set, the same call runs into undefined behaviour.
\<close>

theorem write_file_empty_range_witness:
  "(case write_file plain_env (bytes_of ''f'') (bytes_of ''w'') 0 0
           (initial_state\<lparr>files := (files initial_state)(bytes_of ''f'' \<mapsto> [1, 2, 3])\<rparr>) of
      Undefined_behaviour \<Rightarrow> False
    | Returns r s' \<Rightarrow>
        r = Some 0 \<and> files s' (bytes_of ''f'') = Some [] \<and> stdout_v s' = [48, 10])
   \<and> write_file (plain_env\<lparr>os2 := True\<rparr>) (bytes_of ''f'') (bytes_of ''w'') 0 0
        (set_textmode (initial_state\<lparr>files := (files initial_state)(bytes_of ''f'' \<mapsto> [1, 2, 3])\<rparr>))
      = Undefined_behaviour"
  using write_file_empty_range [where a = 0 and to = 0 and e = plain_env
          and filename = "bytes_of ''f''" and mode = "bytes_of ''w''"
          and s = "initial_state\<lparr>files := (files initial_state)(bytes_of ''f'' \<mapsto> [1, 2, 3])\<rparr>"]
        write_file_empty_range [where a = 0 and to = 0 and e = "plain_env\<lparr>os2 := True\<rparr>"
          and filename = "bytes_of ''f''" and mode = "bytes_of ''w''"
          and s = "set_textmode
                     (initial_state\<lparr>files := (files initial_state)(bytes_of ''f'' \<mapsto> [1, 2, 3])\<rparr>)"]
  by (auto simp: plain_env_def initial_state_def set_textmode_def bytes_of_def NL_def Let_def
           split: write_result.splits if_splits)

section \<open>The display formatter\<close>

lemma digit_not_NL:
  assumes "d < 8"
  shows "(48 + of_nat d :: byte) \<noteq> 10"
proof -
  from assms have "d = 0 \<or> d = 1 \<or> d = 2 \<or> d = 3 \<or> d = 4 \<or> d = 5 \<or> d = 6 \<or> d = 7"
    by arith
  then show ?thesis by auto
qed

lemma octal_digits_no_NL: "NL \<notin> set (octal_digits ch)"
proof -
  have "(48 + of_nat (unat ch div 64 mod 8) :: byte) \<noteq> 10"
       "(48 + of_nat (unat ch div 8 mod 8) :: byte) \<noteq> 10"
       "(48 + of_nat (unat ch mod 8) :: byte) \<noteq> 10"
    by (rule digit_not_NL, simp)+
  then show ?thesis
    unfolding octal_digits_def NL_def by simp
qed

lemma escaped_form_no_NL: "NL \<notin> set (escaped_form ch)"
proof (cases "32 \<le> ch \<and> ch \<le> 126")
  case True
  then have "ch \<noteq> 10" by auto
  with True show ?thesis by (simp add: escaped_form_def NL_def BSL_def)
next
  case False
  then show ?thesis
    using octal_digits_no_NL [of ch]
    by (simp add: escaped_form_def NL_def BSL_def bytes_of_def)
qed

lemma escaped_form_length: "1 \<le> length (escaped_form ch) \<and> length (escaped_form ch) \<le> 4"
  by (simp add: escaped_form_def octal_digits_def bytes_of_def)


lemma and7: "(w::byte) AND 7 = take_bit 3 w"
  by (simp add: take_bit_eq_mask mask_eq_exp_minus_1)

lemma octal_digits_code:
  "[(drop_bit 6 ch AND 7) + 48, (drop_bit 3 ch AND 7) + 48, (ch AND 7) + 48] = octal_digits ch"
proof -
  have "drop_bit 6 ch AND 7 = of_nat (unat ch div 64 mod 8)"
       "drop_bit 3 ch AND 7 = of_nat (unat ch div 8 mod 8)"
       "ch AND 7 = of_nat (unat ch mod 8)"
    by (simp_all add: and7 word_unat_eq_iff unat_drop_bit_eq unsigned_take_bit_eq unat_of_nat
          take_bit_eq_mod drop_bit_eq_div unat_div_distrib unat_mod_distrib)
  then show ?thesis by (simp add: octal_digits_def add.commute)
qed

lemma list_byte_form:
  "list_byte w col ch =
     ((if col + 1 > w then 1 else col + 1) + int (length (escaped_form ch)) - 1,
      (if col + 1 > w then [BSL, NL] else []) @ escaped_form ch)"
proof (cases "32 \<le> ch \<and> ch \<le> 126")
  case True
  then show ?thesis by (simp add: list_byte_def escaped_form_def Let_def)
next
  case False
  consider "ch = 7" | "ch = 8" | "ch = 12" | "ch = 10" | "ch = 13" | "ch = 9" | "ch = 11"
    | "ch = 0" | "ch \<notin> {0, 7, 8, 12, 10, 13, 9, 11}" by auto
  then show ?thesis
  proof cases
    case 9
    with False show ?thesis
      by (simp add: list_byte_def escaped_form_def Let_def escapes_def NUL_def
            octal_digits_code) (simp add: octal_digits_def)
  qed (simp_all add: list_byte_def escaped_form_def Let_def escapes_def escchars_def
         bytes_of_def NUL_def octal_digits_code, simp_all add: octal_digits_def)
qed

lemma chunks_not_Nil: "chunks bs \<noteq> []"
  by (induction bs rule: chunks.induct) auto

lemma chunks_Cons:
  assumes "bs = [] \<or> hd bs \<noteq> NL"
  shows "chunks (a # bs) = (a # hd (chunks bs)) # tl (chunks bs)"
  using assms by (cases bs) auto

lemma chunks_append:
  assumes "NL \<notin> set xs" and "bs = [] \<or> hd bs \<noteq> NL"
  shows "chunks (xs @ bs) = (xs @ hd (chunks bs)) # tl (chunks bs)"
  using assms
proof (induction xs)
  case Nil
  then show ?case using chunks_not_Nil [of bs] by simp
next
  case (Cons x xs)
  then have "xs @ bs = [] \<or> hd (xs @ bs) \<noteq> NL"
    by (cases xs) auto
  then have "chunks (x # xs @ bs) = (x # hd (chunks (xs @ bs))) # tl (chunks (xs @ bs))"
    by (rule chunks_Cons)
  with Cons show ?case by simp
qed

lemma print_line_loop_Cons:
  assumes "gls pf"
  shows "print_line_loop e pf col (ch # p) =
           (if col + 1 > window_columns e then [BSL, NL] else []) @ escaped_form ch @
           print_line_loop e pf
             ((if col + 1 > window_columns e then 1 else col + 1)
                + int (length (escaped_form ch)) - 1) p"
  using assms by (simp add: list_byte_form)

lemma escaped_form_hd: "escaped_form ch \<noteq> [] \<and> hd (escaped_form ch) \<noteq> NL"
  using escaped_form_no_NL [of ch] escaped_form_length [of ch]
  by (cases "escaped_form ch") auto

lemma print_line_loop_hd:
  assumes "gls pf"
  shows "print_line_loop e pf col p = [] \<or> hd (print_line_loop e pf col p) \<noteq> NL"
proof (cases p)
  case Nil
  then show ?thesis by simp
next
  case (Cons ch p')
  show ?thesis
    unfolding Cons print_line_loop_Cons [OF assms]
    using escaped_form_hd [of ch] by (simp add: NL_def BSL_def)
qed

lemma chunks_print_line_loop_Cons:
  assumes "gls pf"
  shows "chunks (print_line_loop e pf col (ch # p)) =
           (let col1 = (if col + 1 > window_columns e then 1 else col + 1)
                         + int (length (escaped_form ch)) - 1;
                cs = chunks (print_line_loop e pf col1 p);
                c = (escaped_form ch @ hd cs) # tl cs
            in if col + 1 > window_columns e then [] # c else c)"
proof -
  have app: "chunks (escaped_form ch @ print_line_loop e pf c p) =
          (escaped_form ch @ hd (chunks (print_line_loop e pf c p)))
            # tl (chunks (print_line_loop e pf c p))" for c
    using escaped_form_no_NL print_line_loop_hd [OF assms] by (rule chunks_append)
  show ?thesis
  proof (cases "col + 1 > window_columns e")
    case True
    then show ?thesis
      unfolding print_line_loop_Cons [OF assms] by (simp add: Let_def app)
  next
    case False
    then show ?thesis
      unfolding print_line_loop_Cons [OF assms] by (simp add: Let_def app)
  qed
qed

lemma unwrap_print_line_loop:
  assumes "gls pf"
  shows "unwrap (print_line_loop e pf col p) = concat (map escaped_form p)"
proof (induction p arbitrary: col)
  case Nil
  show ?case by (simp add: unwrap_def)
next
  case (Cons ch p)
  have c: "concat (chunks bs) = hd (chunks bs) @ concat (tl (chunks bs))" for bs
    using chunks_not_Nil [of bs] by (cases "chunks bs") auto
  show ?case
    using Cons.IH
    unfolding unwrap_def chunks_print_line_loop_Cons [OF assms]
    by (simp add: Let_def c [symmetric])
qed

lemma chunks_print_line_loop_width:
  assumes "gls pf"
  shows "(col + 1 > window_columns e \<longrightarrow> hd (chunks (print_line_loop e pf col p)) = [])
       \<and> (col + 1 \<le> window_columns e \<longrightarrow>
            col + int (length (hd (chunks (print_line_loop e pf col p)))) \<le> window_columns e + 3)
       \<and> (\<forall>c \<in> set (tl (chunks (print_line_loop e pf col p))).
            int (length c) \<le> max (window_columns e) 1 + 3)"
proof (induction p arbitrary: col)
  case Nil
  show ?case by simp
next
  case (Cons ch p)
  let ?w = "window_columns e"
  let ?col1 = "(if col + 1 > ?w then 1 else col + 1) + int (length (escaped_form ch)) - 1"
  let ?cs = "chunks (print_line_loop e pf ?col1 p)"
  note ih = Cons.IH [of ?col1]
  note len = escaped_form_length [of ch]
  have first: "int (length (escaped_form ch @ hd ?cs)) \<le> max ?w 1 + 3" if "col + 1 > ?w"
    using that ih len by (cases "?col1 + 1 > ?w") auto
  have same: "col + int (length (escaped_form ch @ hd ?cs)) \<le> ?w + 3" if "col + 1 \<le> ?w"
    using that ih len by (cases "?col1 + 1 > ?w") auto
  show ?case
    unfolding chunks_print_line_loop_Cons [OF assms]
    using first same ih by (simp add: Let_def)
qed


text \<open>
  C7. In list mode, what \<^verbatim>\<open>print_line\<close> writes for a line is its number (if asked for), the
  bytes written by the loop, the \<open>$\<close> (unless \<open>traditional\<close>) and a newline; and the bytes of the
  loop, without the wrap sequences, are the escaped forms of the bytes of the line one
  after the other: a printable byte as itself, \<open>$\<close> and the backslash behind a backslash, the
  seven control bytes as a backslash and their letter, every other byte (0 too) as a
  backslash and its three octal digits.
\<close>

theorem print_line_list_mode:
  assumes "gls pf"
  shows "stdout_v (print_line e p pf s) =
           stdout_v s @ (if gnp pf then printf_d (current_addr s) @ [9] else [])
             @ print_line_loop e pf (if gnp pf then 8 else 0) p
             @ (if traditional e then [] else [36]) @ [NL]
         \<and> unwrap (print_line_loop e pf (if gnp pf then 8 else 0) p)
             = concat (map escaped_form p)"
  using assms unwrap_print_line_loop [OF assms, where col = "if gnp pf then 8 else 0" and e = e and p = p]
  by (simp add: print_line_def put_bytes_def Let_def)

text \<open>
  A line of nine bytes, \<open>A\<close>, \<open>$\<close>, the backslash, 7, 0, \<open>~\<close>, 127, 10 and 255, comes out as
  \<open>A\<close>, backslash \<open>$\<close>, backslash backslash, backslash \<open>a\<close>, backslash \<open>000\<close>, \<open>~\<close>,
  backslash \<open>177\<close>, backslash \<open>n\<close>, backslash \<open>377\<close>, and the closing \<open>$\<close> and newline.
\<close>

theorem print_line_list_mode_witness:
  "gls list_flags
   \<and> stdout_v (print_line plain_env [65, 36, 92, 7, 0, 126, 127, 10, 255] list_flags initial_state)
       = [65, 92, 36, 92, 92, 92, 97, 92, 48, 48, 48, 126, 92, 49, 55, 55, 92, 110,
          92, 51, 55, 55, 36, 10]
   \<and> unwrap (print_line_loop plain_env list_flags 0 [65, 36, 92, 7, 0, 126, 127, 10, 255])
       = [65, 92, 36, 92, 92, 92, 97, 92, 48, 48, 48, 126, 92, 49, 55, 55, 92, 110,
          92, 51, 55, 55]"
  using print_line_list_mode
          [of list_flags plain_env "[65, 36, 92, 7, 0, 126, 127, 10, 255]" initial_state]
  by (simp add: list_flags_def plain_env_def initial_state_def list_byte_def Let_def
        escapes_def escchars_def bytes_of_def BSL_def NL_def NUL_def escaped_form_def
        octal_digits_def)

lemma chunks_snoc:
  assumes "c \<noteq> NL"
  shows "chunks (xs @ [c]) = butlast (chunks xs) @ [last (chunks xs) @ [c]]"
proof (induction xs rule: chunks.induct)
  case 1
  show ?case by simp
next
  case (2 a)
  show ?case using assms by simp
next
  case (3 a b cs)
  show ?case
  proof (cases "a = BSL \<and> b = NL")
    case True
    with 3 show ?thesis using chunks_not_Nil [of cs] by simp
  next
    case False
    obtain x xs where X: "chunks (b # cs) = x # xs"
      using chunks_not_Nil [of "b # cs"] by (cases "chunks (b # cs)") auto
    from 3(2) False have ih: "chunks (b # cs @ [c]) = butlast (x # xs) @ [last (x # xs) @ [c]]"
      unfolding X by simp
    have "chunks (a # b # cs @ [c]) = (a # hd (chunks (b # cs @ [c]))) # tl (chunks (b # cs @ [c]))"
      using False by simp
    then show ?thesis
      unfolding ih using False X by (cases xs) auto
  qed
qed

lemma print_line_loop_append:
  "print_line_loop e pf col (q @ r) =
     print_line_loop e pf col q @ print_line_loop e pf (print_line_col e pf col q) r"
  by (induction q arbitrary: col) (simp_all split: prod.splits)

lemma print_line_col_columns:
  assumes "gls pf"
  shows "print_line_col e pf col q = line_columns col (print_line_loop e pf col q)"
proof (induction q arbitrary: col)
  case Nil
  show ?case by (simp add: line_columns_def)
next
  case (Cons ch q)
  let ?w = "window_columns e"
  let ?col1 = "(if col + 1 > ?w then 1 else col + 1) + int (length (escaped_form ch)) - 1"
  obtain x xs where cs: "chunks (print_line_loop e pf ?col1 q) = x # xs"
    using chunks_not_Nil [of "print_line_loop e pf ?col1 q"]
    by (cases "chunks (print_line_loop e pf ?col1 q)") auto
  have "print_line_col e pf col (ch # q) = print_line_col e pf ?col1 q"
    using assms by (simp add: list_byte_form)
  also have "\<dots> = line_columns ?col1 (print_line_loop e pf ?col1 q)"
    by (rule Cons.IH)
  also have "\<dots> = line_columns col (print_line_loop e pf col (ch # q))"
    unfolding line_columns_def chunks_print_line_loop_Cons [OF assms] Let_def cs
    by (cases xs; cases "col + 1 > ?w") simp_all
  finally show ?case .
qed

lemma print_line_loop_snoc:
  assumes "gls pf"
  shows "print_line_loop e pf col (q @ [ch]) =
           print_line_loop e pf col q
             @ (if window_columns e \<le> line_columns col (print_line_loop e pf col q)
                then [BSL, NL] else [])
             @ escaped_form ch"
  unfolding print_line_loop_append print_line_col_columns [OF assms]
    print_line_loop_Cons [OF assms]
  by simp

lemma chunks_print_line_loop_bound:
  assumes "gls pf" and "0 \<le> col"
  shows "col + int (length (hd (chunks (print_line_loop e pf col p)))) \<le> max (window_columns e) col + 3"
    and "\<forall>c \<in> set (chunks (print_line_loop e pf col p)). int (length c) \<le> max (window_columns e) 1 + 3"
proof -
  let ?cs = "chunks (print_line_loop e pf col p)"
  note w = chunks_print_line_loop_width [OF assms(1), where col = col and e = e and p = p]
  show 1: "col + int (length (hd ?cs)) \<le> max (window_columns e) col + 3"
    using w by (cases "col + 1 > window_columns e") auto
  have hd: "int (length (hd ?cs)) \<le> max (window_columns e) 1 + 3"
    using w assms(2) by (cases "col + 1 > window_columns e") auto
  have "?cs = hd ?cs # tl ?cs"
    using chunks_not_Nil [of "print_line_loop e pf col p"] by simp
  then have "set ?cs = insert (hd ?cs) (set (tl ?cs))"
    by (metis list.simps(15))
  with hd w show "\<forall>c \<in> set ?cs. int (length c) \<le> max (window_columns e) 1 + 3"
    by simp
qed

text \<open>
  C8, as the code has it. In list mode the width \<open>w\<close> is tested only before the escaped
  form of each byte: the wrap sequence is written there exactly when the physical line
  written so far holds \<open>w\<close> or more columns, where the line number counts as eight columns and
  every character of an escaped form as one. A form of up to four characters is not split,
  and the closing \<open>$\<close> (there is none in traditional mode) is written behind the last form
  without a test. So the forms on one physical line take at most \<open>max w 1 + 3\<close> columns, the first line with the line number
  takes at most \<open>max w 8 + 3\<close> columns (\<open>max w 0 + 3\<close> without a number), and the \<open>$\<close> stands
  behind the forms on the last physical line.
\<close>

theorem print_line_width:
  assumes "gls pf"
  shows "let w = window_columns e;
             col0 = (if gnp pf then 8 else 0);
             dollar = (if traditional e then [] else [36]);
             body = print_line_loop e pf col0;
             cs = chunks (body p)
         in stdout_v (print_line e p pf s) =
              stdout_v s @ (if gnp pf then printf_d (current_addr s) @ [9] else [])
                @ body p @ dollar @ [NL]
            \<and> body [] = []
            \<and> (\<forall>q ch. body (q @ [ch]) =
                   body q @ (if w \<le> line_columns col0 (body q) then [BSL, NL] else [])
                     @ escaped_form ch)
            \<and> col0 + int (length (hd cs)) \<le> max w col0 + 3
            \<and> (\<forall>c \<in> set cs. int (length c) \<le> max w 1 + 3)
            \<and> chunks (body p @ dollar) = butlast cs @ [last cs @ dollar]"
proof -
  let ?col0 = "if gnp pf then 8 else 0 :: int"
  let ?d = "if traditional e then [] else [36 :: byte]"
  let ?body = "print_line_loop e pf ?col0"
  have c0: "0 \<le> ?col0" by simp
  have out: "stdout_v (print_line e p pf s) =
              stdout_v s @ (if gnp pf then printf_d (current_addr s) @ [9] else [])
                @ ?body p @ ?d @ [NL]"
    using assms by (simp add: print_line_def put_bytes_def Let_def)
  have snoc: "\<forall>q ch. ?body (q @ [ch]) =
                   ?body q @ (if window_columns e \<le> line_columns ?col0 (?body q)
                              then [BSL, NL] else [])
                     @ escaped_form ch"
    using print_line_loop_snoc [OF assms] by blast
  have dollar: "chunks (?body p @ ?d)
                  = butlast (chunks (?body p)) @ [last (chunks (?body p)) @ ?d]"
  proof (cases "traditional e")
    case True
    then show ?thesis using chunks_not_Nil [of "?body p"] by simp
  next
    case False
    have "(36 :: byte) \<noteq> NL" by (simp add: NL_def)
    from chunks_snoc [OF this, of "?body p"] False show ?thesis by simp
  qed
  show ?thesis
    unfolding Let_def
    using out snoc dollar chunks_print_line_loop_bound [OF assms c0, of e p]
    by simp
qed

text \<open>
  On a terminal of width 4 the line \<open>abc\<close>, byte 2, \<open>de\<close> comes out as \<open>abc\<close> and backslash
  \<open>002\<close>, seven characters, then the wrap sequence, then \<open>de\<close> and the closing \<open>$\<close>.
\<close>

theorem print_line_width_witness:
  "gls list_flags
   \<and> stdout_v (print_line (plain_env\<lparr>window_columns := 4\<rparr>) [97, 98, 99, 2, 100, 101]
                 list_flags initial_state)
       = [97, 98, 99, 92, 48, 48, 50, 92, 10, 100, 101, 36, 10]
   \<and> chunks (print_line_loop (plain_env\<lparr>window_columns := 4\<rparr>) list_flags 0
               [97, 98, 99, 2, 100, 101])
       = [[97, 98, 99, 92, 48, 48, 50], [100, 101]]
   \<and> int (length [97, 98, 99, 92, 48, 48, 50 :: byte]) \<le> max 4 1 + 3"
  using print_line_width
          [of list_flags "plain_env\<lparr>window_columns := 4\<rparr>" "[97, 98, 99, 2, 100, 101]"
              initial_state]
  by (simp add: list_flags_def plain_env_def initial_state_def list_byte_def Let_def
        escapes_def escchars_def bytes_of_def BSL_def NL_def NUL_def print_line_def
        put_bytes_def)

lemma print_line_loop_run:
  assumes "gls pf" and "col + int n \<le> window_columns e"
  shows "print_line_loop e pf col (replicate n 97 @ p)
           = replicate n 97 @ print_line_loop e pf (col + int n) p"
  using assms(2)
proof (induction n arbitrary: col)
  case 0
  show ?case by simp
next
  case (Suc n)
  have "escaped_form 97 = [97]" by (simp add: escaped_form_def BSL_def)
  then have step: "print_line_loop e pf col (97 # replicate n 97 @ p)
                     = 97 # print_line_loop e pf (col + 1) (replicate n 97 @ p)"
    unfolding print_line_loop_Cons [OF assms(1)] using Suc.prems by (simp add: add.commute)
  have "print_line_loop e pf (col + 1) (replicate n 97 @ p)
          = replicate n 97 @ print_line_loop e pf (col + 1 + int n) p"
    using Suc.prems by (intro Suc.IH) simp
  then show ?case
    by (simp add: step add.assoc del: print_line_loop.simps)
qed

text \<open>
  The claim as it is written fails on the default width 72: for a line of 71 letters, the
  byte 2 and one more letter, the first physical line holds 75 characters before the wrap
  sequence.
\<close>

theorem print_line_width_counterexample:
  "window_columns plain_env = 72
   \<and> chunks (print_line_loop plain_env list_flags 0 (replicate 71 97 @ [2, 98]))
       = [replicate 71 97 @ [92, 48, 48, 50], [98]]
   \<and> \<not> (\<forall>c \<in> set (chunks (print_line_loop plain_env list_flags 0
                                  (replicate 71 97 @ [2, 98]))).
            int (length c) \<le> window_columns plain_env)"
proof -
  have w: "window_columns plain_env = 72" by (simp add: plain_env_def)
  have g: "gls list_flags" by (simp add: list_flags_def)
  have "print_line_loop plain_env list_flags 0 (replicate 71 97 @ [2, 98])
          = replicate 71 97 @ print_line_loop plain_env list_flags (0 + int 71) [2, 98]"
    by (rule print_line_loop_run [OF g]) (simp add: w)
  also have "print_line_loop plain_env list_flags (0 + int 71) [2, 98]
               = [92, 48, 48, 50, 92, 10, 98]"
    by (simp add: g w list_byte_def Let_def escapes_def NUL_def BSL_def NL_def)
  finally have out: "print_line_loop plain_env list_flags 0 (replicate 71 97 @ [2, 98])
                       = replicate 71 97 @ [92, 48, 48, 50, 92, 10, 98]" .
  have "chunks (replicate 71 97 @ [92, 48, 48, 50, 92, 10, 98])
          = (replicate 71 97 @ hd (chunks [92, 48, 48, 50, 92, 10, 98]))
              # tl (chunks [92, 48, 48, 50, 92, 10, 98])"
    by (rule chunks_append) (simp_all add: NL_def)
  also have "chunks [92, 48, 48, 50, 92, 10, 98] = [[92, 48, 48, 50], [98]]"
    by (simp add: BSL_def NL_def)
  finally have c: "chunks (replicate 71 97 @ [92, 48, 48, 50, 92, 10, 98])
                     = [replicate 71 97 @ [92, 48, 48, 50], [98]]" by simp
  show ?thesis
    unfolding out c by (simp add: w)
qed


end
